theory Spec2Isabelle
  imports Complex_Main "HOL-Library.Log_Nat"
begin

section \<open>Side bets tracker: the settlement engine\<close>

text \<open>
  The repository holds two versions of the payout function \<open>computeDeltas\<close>:
  the one of \<^verbatim>\<open>src/src/App.tsx\<close> (lines 111-232) and the one of
  \<^verbatim>\<open>src/unnamed/part_000\<close> (lines 92-195). Both are embedded here. The
  definitions of the first keep the source's names; those of the second carry the
  suffix \<open>_p0\<close> where the names would clash.

  Numbers. A JavaScript \<^verbatim>\<open>number\<close> that is only compared (a score, a par) is a
  value of \<open>jsnum\<close>: a finite number, one of the two infinities, or NaN, with
  the comparisons of the language. Money (the wager, the stake, every delta) is an
  exact rational: rounding of binary floating point is not part of this model, and the
  wager is a finite number.
\<close>

subsection \<open>Numbers that are compared\<close>

datatype jsnum = Fin rat | PInf | NInf | NaN

text \<open>\<^verbatim>\<open>a < b\<close>\<close>

fun js_lt :: "jsnum \<Rightarrow> jsnum \<Rightarrow> bool" where
  "js_lt (Fin a) (Fin b) = (a < b)"
| "js_lt (Fin a) PInf = True"
| "js_lt (Fin a) NInf = False"
| "js_lt (Fin a) NaN = False"
| "js_lt PInf b = False"
| "js_lt NInf (Fin b) = True"
| "js_lt NInf PInf = True"
| "js_lt NInf NInf = False"
| "js_lt NInf NaN = False"
| "js_lt NaN b = False"

text \<open>\<^verbatim>\<open>a === b\<close> on numbers: NaN is equal to nothing.\<close>

fun js_seq :: "jsnum \<Rightarrow> jsnum \<Rightarrow> bool" where
  "js_seq NaN b = False"
| "js_seq a NaN = False"
| "js_seq a b = (a = b)"

text \<open>\<^verbatim>\<open>a <= b\<close> and \<^verbatim>\<open>a >= b\<close>\<close>

definition js_le :: "jsnum \<Rightarrow> jsnum \<Rightarrow> bool" where
  "js_le a b = (js_lt a b \<or> js_seq a b)"

definition js_ge :: "jsnum \<Rightarrow> jsnum \<Rightarrow> bool" where
  "js_ge a b = js_le b a"

text \<open>\<^verbatim>\<open>Math.min(a, b)\<close>: NaN as soon as one argument is NaN.\<close>

fun js_min :: "jsnum \<Rightarrow> jsnum \<Rightarrow> jsnum" where
  "js_min NaN b = NaN"
| "js_min a NaN = NaN"
| "js_min a b = (if js_lt b a then b else a)"

text \<open>\<^verbatim>\<open>Math.min(...xs)\<close>: \<^verbatim>\<open>Infinity\<close> on no argument.\<close>

definition mathMin :: "jsnum list \<Rightarrow> jsnum" where
  "mathMin xs = fold (\<lambda>v b. js_min b v) xs PInf"

text \<open>\<^verbatim>\<open>a - b\<close>\<close>

fun js_sub :: "jsnum \<Rightarrow> jsnum \<Rightarrow> jsnum" where
  "js_sub (Fin a) (Fin b) = Fin (a - b)"
| "js_sub (Fin a) PInf = NInf"
| "js_sub (Fin a) NInf = PInf"
| "js_sub PInf (Fin b) = PInf"
| "js_sub PInf NInf = PInf"
| "js_sub NInf (Fin b) = NInf"
| "js_sub NInf PInf = NInf"
| "js_sub PInf PInf = NaN"
| "js_sub NInf NInf = NaN"
| "js_sub NaN b = NaN"
| "js_sub (Fin a) NaN = NaN"
| "js_sub PInf NaN = NaN"
| "js_sub NInf NaN = NaN"

text \<open>\<^verbatim>\<open>Number.isFinite(a)\<close>, and the global \<^verbatim>\<open>isFinite(a)\<close> on a number.\<close>

fun isFinite :: "jsnum \<Rightarrow> bool" where
  "isFinite (Fin a) = True"
| "isFinite a = False"

text \<open>Truthiness of a number: \<^verbatim>\<open>0\<close> and NaN are falsy.\<close>

fun truthy :: "jsnum \<Rightarrow> bool" where
  "truthy (Fin a) = (a \<noteq> 0)"
| "truthy NaN = False"
| "truthy a = True"

subsection \<open>The data model\<close>

text \<open>\<^verbatim>\<open>type TeamPick = "T1" | "T2" | "Sit"\<close>\<close>

datatype TeamPick = T1 | T2 | Sit

text \<open>
  \<^verbatim>\<open>type Settings\<close>. The version of part_000 has no \<open>soloDouble\<close> field and
  never reads one.
\<close>

record Settings =
  wager :: rat
  carryOver :: bool
  soloDouble :: bool
  birdieDouble :: bool
  eagleTriple :: bool

text \<open>
  \<^verbatim>\<open>type HoleState\<close>. A field of type \<^verbatim>\<open>number | ""\<close> is an option: \<open>None\<close>
  is the empty string.
\<close>

record HoleState =
  par :: "jsnum option"
  teamPicks :: "TeamPick list"
  scores :: "jsnum option list"

text \<open>
  \<^verbatim>\<open>hole.teamPicks[oi]\<close>: a read past the end of the array is \<^verbatim>\<open>undefined\<close>,
  which is neither \<^verbatim>\<open>"T1"\<close> nor \<^verbatim>\<open>"T2"\<close>.
\<close>

definition pickAt :: "HoleState \<Rightarrow> nat \<Rightarrow> TeamPick option" where
  "pickAt hole oi = (if oi < length (teamPicks hole) then Some (teamPicks hole ! oi) else None)"

text \<open>
  \<^verbatim>\<open>hole.scores[oi]\<close> followed by the test against \<^verbatim>\<open>""\<close> and by
  \<^verbatim>\<open>Number(s)\<close>: \<open>None\<close> is the empty string, \<open>Some v\<close> the number that
  \<^verbatim>\<open>Number(s)\<close> gives. A read past the end of the array is \<^verbatim>\<open>undefined\<close>,
  which is not \<^verbatim>\<open>""\<close> and whose \<^verbatim>\<open>Number\<close> is NaN.
\<close>

definition scoreAt :: "HoleState \<Rightarrow> nat \<Rightarrow> jsnum option" where
  "scoreAt hole oi = (if oi < length (scores hole) then scores hole ! oi else Some NaN)"

text \<open>
  \<^verbatim>\<open>p.trim()\<close> on the characters of a name; the white space of the model is the
  ASCII one (tab, line feed, vertical tab, form feed, carriage return, space).
\<close>

definition isWhite :: "char \<Rightarrow> bool" where
  "isWhite c = (of_char c \<in> {9, 10, 11, 12, 13, 32 :: nat})"

definition trim :: "string \<Rightarrow> string" where
  "trim s = rev (dropWhile isWhite (rev (dropWhile isWhite s)))"

text \<open>What \<open>computeDeltas\<close> returns.\<close>

record Result =
  deltas :: "rat list list"
  totals :: "rat list"
  activeIdx :: "nat list"

subsection \<open>computeDeltas of src/src/App.tsx\<close>

text \<open>Lines 112-115: the indices of the players whose trimmed name is not empty.\<close>

definition activeIndices :: "string list \<Rightarrow> nat list" where
  "activeIndices playersAll = filter (\<lambda>i. trim (playersAll ! i) \<noteq> []) [0..<length playersAll]"

text \<open>
  Lines 124-127. The second branch of the source asks for a non-empty string, which the
  type \<^verbatim>\<open>number | ""\<close> of the field excludes: on \<^verbatim>\<open>""\<close> the par stays 4.
\<close>

definition holePar :: "HoleState \<Rightarrow> jsnum" where
  "holePar hole =
     (case par hole of
        Some pRaw \<Rightarrow> if isFinite pRaw \<and> js_ge pRaw (Fin 3) then pRaw else Fin 4
      | None \<Rightarrow> Fin 4)"

text \<open>Lines 129-136: the two teams, as lists of indices into the active players.\<close>

definition teamOf :: "TeamPick \<Rightarrow> nat list \<Rightarrow> HoleState \<Rightarrow> nat list" where
  "teamOf t aidx hole = filter (\<lambda>aj. pickAt hole (aidx ! aj) = Some t) [0..<length aidx]"

text \<open>Lines 138-145.\<close>

definition stakeForScore :: "Settings \<Rightarrow> nat \<Rightarrow> jsnum \<Rightarrow> jsnum \<Rightarrow> rat" where
  "stakeForScore settings carry p winningBest =
     (let baseUnits = 1 + (if carryOver settings then of_nat carry else 0);
          rel = js_sub winningBest p;
          mult = (if eagleTriple settings \<and> js_le rel (Fin (- 2)) then 3
                  else if birdieDouble settings \<and> js_seq rel (Fin (- 1)) then 2
                  else 1)
      in wager settings * baseUnits * mult)"

text \<open>Lines 147-158.\<close>

definition teamBest :: "nat list \<Rightarrow> HoleState \<Rightarrow> nat list \<Rightarrow> jsnum" where
  "teamBest aidx hole team =
     fold (\<lambda>aj best. case scoreAt hole (aidx ! aj) of
                       None \<Rightarrow> best
                     | Some v \<Rightarrow> if js_lt v best then v else best) team PInf"

text \<open>Lines 163-168: the best score of the one populated team.\<close>

definition soloBest :: "nat list \<Rightarrow> HoleState \<Rightarrow> nat list \<Rightarrow> jsnum" where
  "soloBest aidx hole participants =
     fold (\<lambda>aj best. case scoreAt hole (aidx ! aj) of
                       None \<Rightarrow> best
                     | Some v \<Rightarrow> js_min best v) participants PInf"

text \<open>Lines 171-176.\<close>

definition bestList :: "nat list \<Rightarrow> HoleState \<Rightarrow> nat list \<Rightarrow> jsnum \<Rightarrow> nat list" where
  "bestList aidx hole participants best =
     filter (\<lambda>aj. case scoreAt hole (aidx ! aj) of
                    None \<Rightarrow> False
                  | Some v \<Rightarrow> js_seq v best) participants"

text \<open>\<^verbatim>\<open>row[aj] += d\<close> on an index of the row.\<close>

definition bump :: "nat \<Rightarrow> rat \<Rightarrow> rat list \<Rightarrow> rat list" where
  "bump aj d row = row[aj := row ! aj + d]"

text \<open>Lines 185-189: every participant but the winner pays the stake to the winner.\<close>

definition paySolo :: "rat \<Rightarrow> nat \<Rightarrow> nat list \<Rightarrow> rat list \<Rightarrow> rat list" where
  "paySolo stake winner participants row =
     fold (\<lambda>aj r. if aj = winner then r else bump winner stake (bump aj (- stake) r))
       participants row"

text \<open>Lines 161-192: the hole when only one team is populated; the row and the carry.\<close>

definition soloHole :: "Settings \<Rightarrow> nat list \<Rightarrow> HoleState \<Rightarrow> nat \<Rightarrow> nat list \<Rightarrow> rat list \<times> nat" where
  "soloHole settings aidx hole carry participants =
     (let row0 = replicate (length aidx) 0;
          best = soloBest aidx hole participants
      in if \<not> isFinite best then (row0, carry)
         else
           (let bl = bestList aidx hole participants best
            in if length bl \<noteq> 1 then (row0, if carryOver settings then carry + 1 else carry)
               else
                 (let stake = stakeForScore settings carry (holePar hole) best;
                      winner = bl ! 0
                  in (paySolo stake winner participants row0, 0))))"

text \<open>Lines 210-223: what every winner gains and every loser pays.\<close>

definition payTeam :: "Settings \<Rightarrow> rat \<Rightarrow> nat list \<Rightarrow> nat list \<Rightarrow> rat list \<Rightarrow> rat list" where
  "payTeam settings stake winners losers row =
     (let W = length winners;
          L = length losers;
          perWinnerGain = (if W \<ge> L then stake else stake * (of_nat L / of_nat W));
          perLoserLoss = (if W > L then stake * (of_nat W / of_nat L) else stake);
          solo = (soloDouble settings \<and> (W = 1 \<and> L \<ge> 2));
          perWinnerGain2 = (if solo then perWinnerGain * 2 else perWinnerGain);
          perLoserLoss2 = (if solo then perLoserLoss * 2 else perLoserLoss)
      in fold (\<lambda>aj. bump aj (- perLoserLoss2)) losers
           (fold (\<lambda>aj. bump aj perWinnerGain2) winners row))"

text \<open>Lines 194-225: the hole when both teams are populated.\<close>

definition teamHole :: "Settings \<Rightarrow> nat list \<Rightarrow> HoleState \<Rightarrow> nat \<Rightarrow> nat list \<Rightarrow> nat list \<Rightarrow> rat list \<times> nat" where
  "teamHole settings aidx hole carry t1 t2 =
     (let row0 = replicate (length aidx) 0;
          best1 = teamBest aidx hole t1;
          best2 = teamBest aidx hole t2
      in if \<not> isFinite best1 \<or> \<not> isFinite best2 then (row0, carry)
         else if js_seq best1 best2 then (row0, if carryOver settings then carry + 1 else carry)
         else
           (let winners = (if js_lt best1 best2 then t1 else t2);
                losers = (if js_lt best1 best2 then t2 else t1);
                winningBest = js_min best1 best2;
                stake = stakeForScore settings carry (holePar hole) winningBest
            in (payTeam settings stake winners losers row0, 0)))"

text \<open>Lines 121-226: one iteration of the loop over the holes.\<close>

definition holeStep :: "Settings \<Rightarrow> nat list \<Rightarrow> HoleState \<Rightarrow> nat \<Rightarrow> rat list \<times> nat" where
  "holeStep settings aidx hole carry =
     (let t1 = teamOf T1 aidx hole;
          t2 = teamOf T2 aidx hole;
          onlyOneTeam = ((length t1 > 0 \<and> length t2 = 0) \<or> (length t2 > 0 \<and> length t1 = 0))
      in if onlyOneTeam then soloHole settings aidx hole carry (if length t1 \<noteq> 0 then t1 else t2)
         else if length t1 = 0 \<or> length t2 = 0 then (replicate (length aidx) 0, carry)
         else teamHole settings aidx hole carry t1 t2)"

text \<open>
  The loop over the holes, with the carry as its state: the rows of the matrix and the
  carry after the last hole.
\<close>

fun holesLoop :: "Settings \<Rightarrow> nat list \<Rightarrow> HoleState list \<Rightarrow> nat \<Rightarrow> rat list list \<times> nat" where
  "holesLoop settings aidx [] carry = ([], carry)"
| "holesLoop settings aidx (hole # holes) carry =
     (case holeStep settings aidx hole carry of
        (row, carry') \<Rightarrow>
          (case holesLoop settings aidx holes carry' of
             (rows, c) \<Rightarrow> (row # rows, c)))"

text \<open>Lines 228-229: \<^verbatim>\<open>row.forEach((v, i) => (totals[i] += v))\<close> for every row.\<close>

definition addRow :: "rat list \<Rightarrow> rat list \<Rightarrow> rat list" where
  "addRow row tot = fold (\<lambda>i t. bump i (row ! i) t) [0..<length row] tot"

definition sumRows :: "nat \<Rightarrow> rat list list \<Rightarrow> rat list" where
  "sumRows nPlayers ds = fold addRow ds (replicate nPlayers 0)"

definition computeDeltas :: "HoleState list \<Rightarrow> Settings \<Rightarrow> string list \<Rightarrow> Result" where
  "computeDeltas holes settings playersAll =
     (let aidx = activeIndices playersAll;
          ds = fst (holesLoop settings aidx holes 0)
      in \<lparr> deltas = ds, totals = sumRows (length aidx) ds, activeIdx = aidx \<rparr>)"

subsection \<open>computeDeltas of src/unnamed/part_000\<close>

text \<open>Lines 93-94: \<^verbatim>\<open>if (p && p.trim())\<close>; the empty string is falsy.\<close>

definition activeIndices_p0 :: "string list \<Rightarrow> nat list" where
  "activeIndices_p0 players =
     filter (\<lambda>i. players ! i \<noteq> [] \<and> trim (players ! i) \<noteq> []) [0..<length players]"

text \<open>Line 101: \<^verbatim>\<open>hole.par || 4\<close>; \<^verbatim>\<open>""\<close>, \<^verbatim>\<open>0\<close> and NaN are falsy.\<close>

definition holePar_p0 :: "HoleState \<Rightarrow> jsnum" where
  "holePar_p0 hole =
     (case par hole of
        Some p \<Rightarrow> if truthy p then p else Fin 4
      | None \<Rightarrow> Fin 4)"

text \<open>Lines 112-119.\<close>

definition computeBaseStake :: "Settings \<Rightarrow> nat \<Rightarrow> jsnum \<Rightarrow> jsnum \<Rightarrow> rat" where
  "computeBaseStake settings carry p winningBest =
     (let units = 1 + (if carryOver settings then of_nat carry else 0);
          rel = js_sub winningBest p;
          multiplier = (if eagleTriple settings \<and> js_le rel (Fin (- 2)) then 3
                        else if birdieDouble settings \<and> js_seq rel (Fin (- 1)) then 2
                        else 1)
      in wager settings * units * multiplier)"

text \<open>Lines 125-129 and 154-158: \<^verbatim>\<open>s === "" ? Infinity : Number(s)\<close> for every member.\<close>

definition scoresOf :: "nat list \<Rightarrow> HoleState \<Rightarrow> nat list \<Rightarrow> jsnum list" where
  "scoresOf aidx hole team =
     map (\<lambda>aj. case scoreAt hole (aidx ! aj) of None \<Rightarrow> PInf | Some v \<Rightarrow> v) team"

text \<open>Lines 153-160.\<close>

definition bestOfTeam :: "nat list \<Rightarrow> HoleState \<Rightarrow> nat list \<Rightarrow> jsnum" where
  "bestOfTeam aidx hole team = mathMin (scoresOf aidx hole team)"

text \<open>Lines 133-134.\<close>

definition lowCompressed :: "nat list \<Rightarrow> jsnum list \<Rightarrow> jsnum \<Rightarrow> nat list" where
  "lowCompressed participants scs best =
     map (\<lambda>k. participants ! k) (filter (\<lambda>k. js_seq (scs ! k) best) [0..<length participants])"

text \<open>Lines 123-149: the hole when only one team is populated.\<close>

definition soloHole_p0 :: "Settings \<Rightarrow> nat list \<Rightarrow> HoleState \<Rightarrow> nat \<Rightarrow> nat list \<Rightarrow> rat list \<times> nat" where
  "soloHole_p0 settings aidx hole carry participants =
     (let row0 = replicate (length aidx) 0;
          scs = scoresOf aidx hole participants;
          best = mathMin scs
      in if \<not> isFinite best then (row0, carry)
         else
           (let lc = lowCompressed participants scs best
            in if length lc \<noteq> 1 then (row0, if carryOver settings then carry + 1 else carry)
               else
                 (let winner = lc ! 0;
                      losers = filter (\<lambda>aj. aj \<noteq> winner) participants;
                      baseStake = computeBaseStake settings carry (holePar_p0 hole) best
                  in (bump winner (baseStake * of_nat (length losers))
                        (fold (\<lambda>aj. bump aj (- baseStake)) losers row0), 0))))"

text \<open>Lines 181-187: every loser pays, then every winner gains.\<close>

definition payTeam_p0 :: "rat \<Rightarrow> nat list \<Rightarrow> nat list \<Rightarrow> rat list \<Rightarrow> rat list" where
  "payTeam_p0 baseStake winners losers row =
     (let W = length winners;
          L = length losers;
          perLoser = baseStake * (if W > L then of_nat W / of_nat L else 1);
          perWinner = baseStake * (if L > W then of_nat L / of_nat W else 1)
      in fold (\<lambda>aj. bump aj perWinner) winners
           (fold (\<lambda>aj. bump aj (- perLoser)) losers row))"

text \<open>Lines 151-189: the hole when both teams are populated.\<close>

definition teamHole_p0 :: "Settings \<Rightarrow> nat list \<Rightarrow> HoleState \<Rightarrow> nat \<Rightarrow> nat list \<Rightarrow> nat list \<Rightarrow> rat list \<times> nat" where
  "teamHole_p0 settings aidx hole carry t1 t2 =
     (let row0 = replicate (length aidx) 0;
          best1 = bestOfTeam aidx hole t1;
          best2 = bestOfTeam aidx hole t2
      in if \<not> isFinite best1 \<or> \<not> isFinite best2 then (row0, carry)
         else if js_seq best1 best2 then (row0, if carryOver settings then carry + 1 else carry)
         else
           (let winners = (if js_lt best1 best2 then t1 else t2);
                losers = (if js_lt best1 best2 then t2 else t1);
                winningBest = js_min best1 best2;
                baseStake = computeBaseStake settings carry (holePar_p0 hole) winningBest
            in if length winners = 0 \<or> length losers = 0 then (row0, carry)
               else (payTeam_p0 baseStake winners losers row0, 0)))"

text \<open>Lines 100-190: the callback of \<^verbatim>\<open>holes.forEach\<close>.\<close>

definition holeStep_p0 :: "Settings \<Rightarrow> nat list \<Rightarrow> HoleState \<Rightarrow> nat \<Rightarrow> rat list \<times> nat" where
  "holeStep_p0 settings aidx hole carry =
     (let t1 = teamOf T1 aidx hole;
          t2 = teamOf T2 aidx hole;
          onlyOneTeam = ((length t1 > 0 \<and> length t2 = 0) \<or> (length t2 > 0 \<and> length t1 = 0))
      in if onlyOneTeam then soloHole_p0 settings aidx hole carry (if length t1 > 0 then t1 else t2)
         else if length t1 = 0 \<or> length t2 = 0 then (replicate (length aidx) 0, carry)
         else teamHole_p0 settings aidx hole carry t1 t2)"

fun holesLoop_p0 :: "Settings \<Rightarrow> nat list \<Rightarrow> HoleState list \<Rightarrow> nat \<Rightarrow> rat list list \<times> nat" where
  "holesLoop_p0 settings aidx [] carry = ([], carry)"
| "holesLoop_p0 settings aidx (hole # holes) carry =
     (case holeStep_p0 settings aidx hole carry of
        (row, carry') \<Rightarrow>
          (case holesLoop_p0 settings aidx holes carry' of
             (rows, c) \<Rightarrow> (row # rows, c)))"

text \<open>Lines 92-195. This version returns the matrix and the totals only.\<close>

definition computeDeltas_p0 :: "HoleState list \<Rightarrow> Settings \<Rightarrow> string list \<Rightarrow> rat list list \<times> rat list" where
  "computeDeltas_p0 holes settings players =
     (let aidx = activeIndices_p0 players;
          ds = fst (holesLoop_p0 settings aidx holes 0)
      in (ds, sumRows (length aidx) ds))"

subsection \<open>The exit that an iteration takes\<close>

text \<open>
  Each iteration of the loop leaves through one of four kinds of exit. In App.tsx:
  line 169 and line 198 (a best value that is not finite) are \<open>Void\<close>; lines 178-181
  and 200-203 (the carry is extended) are \<open>Tie\<close>; lines 190-191 and 225 (payout, the
  carry is reset) are \<open>Settled\<close>; line 194 (no team is populated) is
  \<open>Degenerate\<close>. In part_000 the exits are lines 131 and 164, 135-138 and 166-169,
  147-148 and 189, and 151.
\<close>

datatype Outcome = Degenerate | Void | Tie | Settled

definition outcome :: "nat list \<Rightarrow> HoleState \<Rightarrow> Outcome" where
  "outcome aidx hole =
     (let t1 = teamOf T1 aidx hole;
          t2 = teamOf T2 aidx hole;
          onlyOneTeam = ((length t1 > 0 \<and> length t2 = 0) \<or> (length t2 > 0 \<and> length t1 = 0))
      in if onlyOneTeam then
           (let participants = (if length t1 \<noteq> 0 then t1 else t2);
                best = soloBest aidx hole participants
            in if \<not> isFinite best then Void
               else if length (bestList aidx hole participants best) \<noteq> 1 then Tie
               else Settled)
         else if length t1 = 0 \<or> length t2 = 0 then Degenerate
         else
           (let best1 = teamBest aidx hole t1;
                best2 = teamBest aidx hole t2
            in if \<not> isFinite best1 \<or> \<not> isFinite best2 then Void
               else if js_seq best1 best2 then Tie
               else Settled))"

definition outcome_p0 :: "nat list \<Rightarrow> HoleState \<Rightarrow> Outcome" where
  "outcome_p0 aidx hole =
     (let t1 = teamOf T1 aidx hole;
          t2 = teamOf T2 aidx hole;
          onlyOneTeam = ((length t1 > 0 \<and> length t2 = 0) \<or> (length t2 > 0 \<and> length t1 = 0))
      in if onlyOneTeam then
           (let participants = (if length t1 > 0 then t1 else t2);
                scs = scoresOf aidx hole participants;
                best = mathMin scs
            in if \<not> isFinite best then Void
               else if length (lowCompressed participants scs best) \<noteq> 1 then Tie
               else Settled)
         else if length t1 = 0 \<or> length t2 = 0 then Degenerate
         else
           (let best1 = bestOfTeam aidx hole t1;
                best2 = bestOfTeam aidx hole t2
            in if \<not> isFinite best1 \<or> \<not> isFinite best2 then Void
               else if js_seq best1 best2 then Tie
               else Settled))"

subsection \<open>Double precision\<close>

text \<open>
  The definitions above compute money in exact rational arithmetic. The ones that
  follow compute it as the code does, in IEEE 754 binary64 with rounding to nearest,
  ties to even: a finite double is \<open>Fin x\<close> for the rational \<open>x\<close> it denotes, and every
  arithmetic operation rounds its exact result with \<open>toDouble\<close>. The sign of a zero
  is not represented. The lengths of arrays and the carry are integers below
  \<open>2 ^ 32\<close>, which are doubles. Definitions of this layer carry the suffix \<open>_d\<close>.
\<close>

text \<open>The integer part of the binary logarithm of a positive rational.\<close>

definition ilog2 :: "rat \<Rightarrow> int" where
  "ilog2 x =
     (case quotient_of x of
        (a, b) \<Rightarrow>
          (let d = int (floorlog 2 (nat a)) - int (floorlog 2 (nat b))
           in if 2 powi d \<le> x then d else d - 1))"

definition roundHalfEven :: "rat \<Rightarrow> int" where
  "roundHalfEven q =
     (let f = \<lfloor>q\<rfloor>; d = q - of_int f
      in if d < 1 / 2 then f else if 1 / 2 < d then f + 1 else if even f then f else f + 1)"

text \<open>
  The double nearest to a rational: 53 bits of precision, exponents of normal numbers
  from -1022 to 1023, gradual underflow, overflow to an infinity.
\<close>

definition toDouble :: "rat \<Rightarrow> jsnum" where
  "toDouble x =
     (if x = 0 then Fin 0
      else
        (let e = max (ilog2 \<bar>x\<bar>) (- 1022);
             ulp = 2 powi (e - 52);
             r = of_int (roundHalfEven (x / ulp)) * ulp
         in if 2 powi 1024 \<le> r then PInf
            else if r \<le> - (2 powi 1024) then NInf
            else Fin r))"

text \<open>\<^verbatim>\<open>- a\<close>, \<^verbatim>\<open>a + b\<close>, \<^verbatim>\<open>a - b\<close>, \<^verbatim>\<open>a * b\<close> and \<^verbatim>\<open>a / b\<close> on doubles.\<close>

fun fl_neg :: "jsnum \<Rightarrow> jsnum" where
  "fl_neg (Fin a) = Fin (- a)"
| "fl_neg PInf = NInf"
| "fl_neg NInf = PInf"
| "fl_neg NaN = NaN"

fun fl_add :: "jsnum \<Rightarrow> jsnum \<Rightarrow> jsnum" where
  "fl_add (Fin a) (Fin b) = toDouble (a + b)"
| "fl_add (Fin a) PInf = PInf"
| "fl_add (Fin a) NInf = NInf"
| "fl_add PInf (Fin b) = PInf"
| "fl_add PInf PInf = PInf"
| "fl_add PInf NInf = NaN"
| "fl_add NInf (Fin b) = NInf"
| "fl_add NInf NInf = NInf"
| "fl_add NInf PInf = NaN"
| "fl_add NaN b = NaN"
| "fl_add (Fin a) NaN = NaN"
| "fl_add PInf NaN = NaN"
| "fl_add NInf NaN = NaN"

definition fl_sub :: "jsnum \<Rightarrow> jsnum \<Rightarrow> jsnum" where
  "fl_sub a b = fl_add a (fl_neg b)"

text \<open>An infinity with the sign of a non-zero rational.\<close>

definition signedInf :: "rat \<Rightarrow> jsnum" where
  "signedInf a = (if 0 < a then PInf else NInf)"

fun fl_mul :: "jsnum \<Rightarrow> jsnum \<Rightarrow> jsnum" where
  "fl_mul (Fin a) (Fin b) = toDouble (a * b)"
| "fl_mul (Fin a) PInf = (if a = 0 then NaN else signedInf a)"
| "fl_mul (Fin a) NInf = (if a = 0 then NaN else signedInf (- a))"
| "fl_mul PInf (Fin b) = (if b = 0 then NaN else signedInf b)"
| "fl_mul NInf (Fin b) = (if b = 0 then NaN else signedInf (- b))"
| "fl_mul PInf PInf = PInf"
| "fl_mul PInf NInf = NInf"
| "fl_mul NInf PInf = NInf"
| "fl_mul NInf NInf = PInf"
| "fl_mul NaN b = NaN"
| "fl_mul (Fin a) NaN = NaN"
| "fl_mul PInf NaN = NaN"
| "fl_mul NInf NaN = NaN"

text \<open>
  The code divides the length of one team by the length of the other, both at least
  1; a zero divisor is taken as positive.
\<close>

fun fl_div :: "jsnum \<Rightarrow> jsnum \<Rightarrow> jsnum" where
  "fl_div (Fin a) (Fin b) =
     (if b = 0 then (if a = 0 then NaN else signedInf a) else toDouble (a / b))"
| "fl_div (Fin a) PInf = Fin 0"
| "fl_div (Fin a) NInf = Fin 0"
| "fl_div PInf (Fin b) = (if 0 \<le> b then PInf else NInf)"
| "fl_div NInf (Fin b) = (if 0 \<le> b then NInf else PInf)"
| "fl_div PInf PInf = NaN"
| "fl_div PInf NInf = NaN"
| "fl_div NInf PInf = NaN"
| "fl_div NInf NInf = NaN"
| "fl_div NaN b = NaN"
| "fl_div (Fin a) NaN = NaN"
| "fl_div PInf NaN = NaN"
| "fl_div NInf NaN = NaN"

text \<open>\<^verbatim>\<open>type Settings\<close> with the wager as a double.\<close>

record SettingsD =
  wagerD :: jsnum
  carryOverD :: bool
  soloDoubleD :: bool
  birdieDoubleD :: bool
  eagleTripleD :: bool

record ResultD =
  deltasD :: "jsnum list list"
  totalsD :: "jsnum list"
  activeIdxD :: "nat list"

text \<open>App.tsx lines 138-145 and part_000 lines 112-119, which are the same.\<close>

definition stakeForScore_d :: "SettingsD \<Rightarrow> nat \<Rightarrow> jsnum \<Rightarrow> jsnum \<Rightarrow> jsnum" where
  "stakeForScore_d settings carry p winningBest =
     (let baseUnits = fl_add (Fin 1) (if carryOverD settings then Fin (of_nat carry) else Fin 0);
          rel = fl_sub winningBest p;
          mult = (if eagleTripleD settings \<and> js_le rel (Fin (- 2)) then Fin 3
                  else if birdieDoubleD settings \<and> js_seq rel (Fin (- 1)) then Fin 2
                  else Fin 1)
      in fl_mul (fl_mul (wagerD settings) baseUnits) mult)"

text \<open>\<^verbatim>\<open>row[aj] += d\<close> and \<^verbatim>\<open>row[aj] -= d\<close>.\<close>

definition addTo :: "nat \<Rightarrow> jsnum \<Rightarrow> jsnum list \<Rightarrow> jsnum list" where
  "addTo aj d row = row[aj := fl_add (row ! aj) d]"

definition subFrom :: "nat \<Rightarrow> jsnum \<Rightarrow> jsnum list \<Rightarrow> jsnum list" where
  "subFrom aj d row = row[aj := fl_sub (row ! aj) d]"

text \<open>App.tsx lines 185-189.\<close>

definition paySolo_d :: "jsnum \<Rightarrow> nat \<Rightarrow> nat list \<Rightarrow> jsnum list \<Rightarrow> jsnum list" where
  "paySolo_d stake winner participants row =
     fold (\<lambda>aj r. if aj = winner then r else addTo winner stake (subFrom aj stake r))
       participants row"

text \<open>App.tsx lines 161-192.\<close>

definition soloHole_d :: "SettingsD \<Rightarrow> nat list \<Rightarrow> HoleState \<Rightarrow> nat \<Rightarrow> nat list \<Rightarrow> jsnum list \<times> nat" where
  "soloHole_d settings aidx hole carry participants =
     (let row0 = replicate (length aidx) (Fin 0);
          best = soloBest aidx hole participants
      in if \<not> isFinite best then (row0, carry)
         else
           (let bl = bestList aidx hole participants best
            in if length bl \<noteq> 1 then (row0, if carryOverD settings then carry + 1 else carry)
               else
                 (let stake = stakeForScore_d settings carry (holePar hole) best;
                      winner = bl ! 0
                  in (paySolo_d stake winner participants row0, 0))))"

text \<open>App.tsx lines 210-223.\<close>

definition payTeam_d :: "SettingsD \<Rightarrow> jsnum \<Rightarrow> nat list \<Rightarrow> nat list \<Rightarrow> jsnum list \<Rightarrow> jsnum list" where
  "payTeam_d settings stake winners losers row =
     (let W = length winners;
          L = length losers;
          perWinnerGain = (if W \<ge> L then stake
                           else fl_mul stake (fl_div (Fin (of_nat L)) (Fin (of_nat W))));
          perLoserLoss = (if W > L then fl_mul stake (fl_div (Fin (of_nat W)) (Fin (of_nat L)))
                          else stake);
          solo = (soloDoubleD settings \<and> (W = 1 \<and> L \<ge> 2));
          perWinnerGain2 = (if solo then fl_mul perWinnerGain (Fin 2) else perWinnerGain);
          perLoserLoss2 = (if solo then fl_mul perLoserLoss (Fin 2) else perLoserLoss)
      in fold (\<lambda>aj. subFrom aj perLoserLoss2) losers
           (fold (\<lambda>aj. addTo aj perWinnerGain2) winners row))"

text \<open>App.tsx lines 194-225.\<close>

definition teamHole_d :: "SettingsD \<Rightarrow> nat list \<Rightarrow> HoleState \<Rightarrow> nat \<Rightarrow> nat list \<Rightarrow> nat list \<Rightarrow> jsnum list \<times> nat" where
  "teamHole_d settings aidx hole carry t1 t2 =
     (let row0 = replicate (length aidx) (Fin 0);
          best1 = teamBest aidx hole t1;
          best2 = teamBest aidx hole t2
      in if \<not> isFinite best1 \<or> \<not> isFinite best2 then (row0, carry)
         else if js_seq best1 best2 then (row0, if carryOverD settings then carry + 1 else carry)
         else
           (let winners = (if js_lt best1 best2 then t1 else t2);
                losers = (if js_lt best1 best2 then t2 else t1);
                winningBest = js_min best1 best2;
                stake = stakeForScore_d settings carry (holePar hole) winningBest
            in (payTeam_d settings stake winners losers row0, 0)))"

text \<open>App.tsx lines 121-226.\<close>

definition holeStep_d :: "SettingsD \<Rightarrow> nat list \<Rightarrow> HoleState \<Rightarrow> nat \<Rightarrow> jsnum list \<times> nat" where
  "holeStep_d settings aidx hole carry =
     (let t1 = teamOf T1 aidx hole;
          t2 = teamOf T2 aidx hole;
          onlyOneTeam = ((length t1 > 0 \<and> length t2 = 0) \<or> (length t2 > 0 \<and> length t1 = 0))
      in if onlyOneTeam then soloHole_d settings aidx hole carry (if length t1 \<noteq> 0 then t1 else t2)
         else if length t1 = 0 \<or> length t2 = 0 then (replicate (length aidx) (Fin 0), carry)
         else teamHole_d settings aidx hole carry t1 t2)"

fun holesLoop_d :: "SettingsD \<Rightarrow> nat list \<Rightarrow> HoleState list \<Rightarrow> nat \<Rightarrow> jsnum list list \<times> nat" where
  "holesLoop_d settings aidx [] carry = ([], carry)"
| "holesLoop_d settings aidx (hole # holes) carry =
     (case holeStep_d settings aidx hole carry of
        (row, carry') \<Rightarrow>
          (case holesLoop_d settings aidx holes carry' of
             (rows, c) \<Rightarrow> (row # rows, c)))"

text \<open>App.tsx lines 228-229 and part_000 lines 192-193.\<close>

definition addRow_d :: "jsnum list \<Rightarrow> jsnum list \<Rightarrow> jsnum list" where
  "addRow_d row tot = fold (\<lambda>i t. addTo i (row ! i) t) [0..<length row] tot"

definition sumRows_d :: "nat \<Rightarrow> jsnum list list \<Rightarrow> jsnum list" where
  "sumRows_d nPlayers ds = fold addRow_d ds (replicate nPlayers (Fin 0))"

definition computeDeltas_d :: "HoleState list \<Rightarrow> SettingsD \<Rightarrow> string list \<Rightarrow> ResultD" where
  "computeDeltas_d holes settings playersAll =
     (let aidx = activeIndices playersAll;
          ds = fst (holesLoop_d settings aidx holes 0)
      in \<lparr> deltasD = ds, totalsD = sumRows_d (length aidx) ds, activeIdxD = aidx \<rparr>)"

text \<open>part_000 lines 123-149.\<close>

definition soloHole_p0_d :: "SettingsD \<Rightarrow> nat list \<Rightarrow> HoleState \<Rightarrow> nat \<Rightarrow> nat list \<Rightarrow> jsnum list \<times> nat" where
  "soloHole_p0_d settings aidx hole carry participants =
     (let row0 = replicate (length aidx) (Fin 0);
          scs = scoresOf aidx hole participants;
          best = mathMin scs
      in if \<not> isFinite best then (row0, carry)
         else
           (let lc = lowCompressed participants scs best
            in if length lc \<noteq> 1 then (row0, if carryOverD settings then carry + 1 else carry)
               else
                 (let winner = lc ! 0;
                      losers = filter (\<lambda>aj. aj \<noteq> winner) participants;
                      baseStake = stakeForScore_d settings carry (holePar_p0 hole) best
                  in (addTo winner (fl_mul baseStake (Fin (of_nat (length losers))))
                        (fold (\<lambda>aj. subFrom aj baseStake) losers row0), 0))))"

text \<open>part_000 lines 181-187.\<close>

definition payTeam_p0_d :: "jsnum \<Rightarrow> nat list \<Rightarrow> nat list \<Rightarrow> jsnum list \<Rightarrow> jsnum list" where
  "payTeam_p0_d baseStake winners losers row =
     (let W = length winners;
          L = length losers;
          perLoser = fl_mul baseStake
                       (if W > L then fl_div (Fin (of_nat W)) (Fin (of_nat L)) else Fin 1);
          perWinner = fl_mul baseStake
                        (if L > W then fl_div (Fin (of_nat L)) (Fin (of_nat W)) else Fin 1)
      in fold (\<lambda>aj. addTo aj perWinner) winners
           (fold (\<lambda>aj. subFrom aj perLoser) losers row))"

text \<open>part_000 lines 151-189.\<close>

definition teamHole_p0_d :: "SettingsD \<Rightarrow> nat list \<Rightarrow> HoleState \<Rightarrow> nat \<Rightarrow> nat list \<Rightarrow> nat list \<Rightarrow> jsnum list \<times> nat" where
  "teamHole_p0_d settings aidx hole carry t1 t2 =
     (let row0 = replicate (length aidx) (Fin 0);
          best1 = bestOfTeam aidx hole t1;
          best2 = bestOfTeam aidx hole t2
      in if \<not> isFinite best1 \<or> \<not> isFinite best2 then (row0, carry)
         else if js_seq best1 best2 then (row0, if carryOverD settings then carry + 1 else carry)
         else
           (let winners = (if js_lt best1 best2 then t1 else t2);
                losers = (if js_lt best1 best2 then t2 else t1);
                winningBest = js_min best1 best2;
                baseStake = stakeForScore_d settings carry (holePar_p0 hole) winningBest
            in if length winners = 0 \<or> length losers = 0 then (row0, carry)
               else (payTeam_p0_d baseStake winners losers row0, 0)))"

text \<open>part_000 lines 100-190.\<close>

definition holeStep_p0_d :: "SettingsD \<Rightarrow> nat list \<Rightarrow> HoleState \<Rightarrow> nat \<Rightarrow> jsnum list \<times> nat" where
  "holeStep_p0_d settings aidx hole carry =
     (let t1 = teamOf T1 aidx hole;
          t2 = teamOf T2 aidx hole;
          onlyOneTeam = ((length t1 > 0 \<and> length t2 = 0) \<or> (length t2 > 0 \<and> length t1 = 0))
      in if onlyOneTeam then soloHole_p0_d settings aidx hole carry (if length t1 > 0 then t1 else t2)
         else if length t1 = 0 \<or> length t2 = 0 then (replicate (length aidx) (Fin 0), carry)
         else teamHole_p0_d settings aidx hole carry t1 t2)"

fun holesLoop_p0_d :: "SettingsD \<Rightarrow> nat list \<Rightarrow> HoleState list \<Rightarrow> nat \<Rightarrow> jsnum list list \<times> nat" where
  "holesLoop_p0_d settings aidx [] carry = ([], carry)"
| "holesLoop_p0_d settings aidx (hole # holes) carry =
     (case holeStep_p0_d settings aidx hole carry of
        (row, carry') \<Rightarrow>
          (case holesLoop_p0_d settings aidx holes carry' of
             (rows, c) \<Rightarrow> (row # rows, c)))"

definition computeDeltas_p0_d :: "HoleState list \<Rightarrow> SettingsD \<Rightarrow> string list \<Rightarrow> jsnum list list \<times> jsnum list" where
  "computeDeltas_p0_d holes settings players =
     (let aidx = activeIndices_p0 players;
          ds = fst (holesLoop_p0_d settings aidx holes 0)
      in (ds, sumRows_d (length aidx) ds))"

section \<open>Properties\<close>

subsection \<open>Rows: lengths and sums\<close>

lemma length_bump [simp]: "length (bump i d row) = length row"
  by (simp add: bump_def)

lemma sum_list_bump: "i < length row \<Longrightarrow> sum_list (bump i d row) = sum_list row + d"
proof (induction row arbitrary: i)
  case Nil
  then show ?case by simp
next
  case (Cons x xs)
  then show ?case by (cases i) (simp_all add: bump_def)
qed

lemma length_fold_bump [simp]: "length (fold (\<lambda>aj. bump aj d) xs row) = length row"
  by (induction xs arbitrary: row) simp_all

lemma sum_list_fold_bump:
  "\<forall>aj \<in> set xs. aj < length row \<Longrightarrow>
   sum_list (fold (\<lambda>aj. bump aj d) xs row) = sum_list row + of_nat (length xs) * d"
  by (induction xs arbitrary: row) (simp_all add: sum_list_bump algebra_simps)

lemma length_paySolo [simp]: "length (paySolo stake w ps row) = length row"
  unfolding paySolo_def by (induction ps arbitrary: row) simp_all

lemma sum_list_paySolo:
  "w < length row \<Longrightarrow> \<forall>aj \<in> set ps. aj < length row \<Longrightarrow>
   sum_list (paySolo stake w ps row) = sum_list row"
  unfolding paySolo_def by (induction ps arbitrary: row) (simp_all add: sum_list_bump)

lemma teamOf_bound: "aj \<in> set (teamOf t aidx hole) \<Longrightarrow> aj < length aidx"
  by (simp add: teamOf_def)

lemma distinct_teamOf: "distinct (teamOf t aidx hole)"
  by (simp add: teamOf_def)

lemma sum_replicate_zero [simp]: "sum_list (replicate n (0::rat)) = 0"
  by (induction n) simp_all

lemma length_payTeam [simp]: "length (payTeam st stake ws ls row) = length row"
  by (simp add: payTeam_def Let_def)

lemma sum_list_payTeam:
  assumes "\<forall>aj \<in> set ws. aj < length row" "\<forall>aj \<in> set ls. aj < length row" "ws \<noteq> []" "ls \<noteq> []"
  shows "sum_list (payTeam st stake ws ls row) = sum_list row"
proof -
  have W: "(of_nat (length ws) :: rat) \<noteq> 0" and L: "(of_nat (length ls) :: rat) \<noteq> 0"
    using assms by simp_all
  show ?thesis
    using assms(1,2) W L
    by (simp add: payTeam_def Let_def sum_list_fold_bump field_simps)
qed

lemma length_payTeam_p0 [simp]: "length (payTeam_p0 stake ws ls row) = length row"
  by (simp add: payTeam_p0_def Let_def)

lemma sum_list_payTeam_p0:
  assumes "\<forall>aj \<in> set ws. aj < length row" "\<forall>aj \<in> set ls. aj < length row" "ws \<noteq> []" "ls \<noteq> []"
  shows "sum_list (payTeam_p0 stake ws ls row) = sum_list row"
proof -
  have W: "(of_nat (length ws) :: rat) \<noteq> 0" and L: "(of_nat (length ls) :: rat) \<noteq> 0"
    using assms by simp_all
  show ?thesis
    using assms(1,2) W L
    by (simp add: payTeam_p0_def Let_def sum_list_fold_bump field_simps)
qed

lemma bestList_subset: "set (bestList aidx hole ps best) \<subseteq> set ps"
  by (auto simp: bestList_def)

lemma nth0_mem: "length xs = 1 \<Longrightarrow> xs ! 0 \<in> set xs"
  by (cases xs) simp_all

lemma soloHole_row:
  assumes "\<forall>aj \<in> set ps. aj < length aidx"
  shows "length (fst (soloHole st aidx hole c ps)) = length aidx \<and>
         sum_list (fst (soloHole st aidx hole c ps)) = 0"
proof -
  have "bestList aidx hole ps b ! 0 < length aidx" if "length (bestList aidx hole ps b) = 1" for b
    using nth0_mem [OF that] bestList_subset assms by blast
  then show ?thesis
    using assms by (simp add: soloHole_def Let_def sum_list_paySolo)
qed

lemma teamHole_row:
  assumes "\<forall>aj \<in> set t1. aj < length aidx" "\<forall>aj \<in> set t2. aj < length aidx" "t1 \<noteq> []" "t2 \<noteq> []"
  shows "length (fst (teamHole st aidx hole c t1 t2)) = length aidx \<and>
         sum_list (fst (teamHole st aidx hole c t1 t2)) = 0"
  using assms by (simp add: teamHole_def Let_def sum_list_payTeam)

lemma holeStep_row:
  "length (fst (holeStep st aidx hole c)) = length aidx \<and> sum_list (fst (holeStep st aidx hole c)) = 0"
proof -
  have b: "\<forall>aj \<in> set (teamOf t aidx hole). aj < length aidx" for t
    by (simp add: teamOf_bound)
  show ?thesis
    unfolding holeStep_def Let_def
    using soloHole_row [OF b] teamHole_row [OF b b]
    by (simp del: length_0_conv)
qed

lemma holesLoop_Cons:
  "holesLoop st aidx (h # hs) c =
     (fst (holeStep st aidx h c) # fst (holesLoop st aidx hs (snd (holeStep st aidx h c))),
      snd (holesLoop st aidx hs (snd (holeStep st aidx h c))))"
  by (simp split: prod.splits)


lemma lowCompressed_subset: "set (lowCompressed ps scs best) \<subseteq> set ps"
  by (auto simp: lowCompressed_def)

lemma soloHole_p0_row:
  assumes "\<forall>aj \<in> set ps. aj < length aidx"
  shows "length (fst (soloHole_p0 st aidx hole c ps)) = length aidx \<and>
         sum_list (fst (soloHole_p0 st aidx hole c ps)) = 0"
proof -
  have "lowCompressed ps scs b ! 0 < length aidx" if "length (lowCompressed ps scs b) = 1" for b scs
    using nth0_mem [OF that] lowCompressed_subset assms by blast
  then show ?thesis
    using assms by (simp add: soloHole_p0_def Let_def sum_list_bump sum_list_fold_bump)
qed

lemma teamHole_p0_row:
  assumes "\<forall>aj \<in> set t1. aj < length aidx" "\<forall>aj \<in> set t2. aj < length aidx" "t1 \<noteq> []" "t2 \<noteq> []"
  shows "length (fst (teamHole_p0 st aidx hole c t1 t2)) = length aidx \<and>
         sum_list (fst (teamHole_p0 st aidx hole c t1 t2)) = 0"
  using assms by (simp add: teamHole_p0_def Let_def sum_list_payTeam_p0)

lemma holeStep_p0_row:
  "length (fst (holeStep_p0 st aidx hole c)) = length aidx \<and>
   sum_list (fst (holeStep_p0 st aidx hole c)) = 0"
proof -
  have b: "\<forall>aj \<in> set (teamOf t aidx hole). aj < length aidx" for t
    by (simp add: teamOf_bound)
  show ?thesis
    unfolding holeStep_p0_def Let_def
    using soloHole_p0_row [OF b] teamHole_p0_row [OF b b]
    by (simp del: length_0_conv)
qed

lemma holesLoop_p0_Cons:
  "holesLoop_p0 st aidx (h # hs) c =
     (fst (holeStep_p0 st aidx h c) # fst (holesLoop_p0 st aidx hs (snd (holeStep_p0 st aidx h c))),
      snd (holesLoop_p0 st aidx hs (snd (holeStep_p0 st aidx h c))))"
  by (simp split: prod.splits)


subsection \<open>Totals\<close>








subsection \<open>The stake\<close>

lemma js_le_Fin [simp]: "js_le (Fin a) (Fin b) = (a \<le> b)"
  by (auto simp: js_le_def)

lemma js_ge_Fin [simp]: "js_ge (Fin a) (Fin b) = (b \<le> a)"
  by (simp add: js_ge_def)

lemma js_min_Fin [simp]: "js_min (Fin a) (Fin b) = Fin (min a b)"
  by (simp add: min_def)

lemma stakeForScore_Fin:
  "stakeForScore st c (Fin tg) (Fin wb) =
     wager st * (1 + (if carryOver st then of_nat c else 0)) *
       (if eagleTriple st \<and> wb \<le> tg - 2 then 3
        else if birdieDouble st \<and> wb = tg - 1 then 2 else 1)"
  by (auto simp: stakeForScore_def Let_def)

lemma computeBaseStake_eq: "computeBaseStake st c p wb = stakeForScore st c p wb"
  by (simp add: computeBaseStake_def stakeForScore_def)

lemma teamBest_Nil [simp]: "teamBest aidx hole [] = PInf"
  by (simp add: teamBest_def)

lemma bestOfTeam_Nil [simp]: "bestOfTeam aidx hole [] = PInf"
  by (simp add: bestOfTeam_def mathMin_def scoresOf_def)

lemma teamHole_settled:
  assumes "teamBest aidx hole t1 = Fin b1" "teamBest aidx hole t2 = Fin b2" "b1 \<noteq> b2"
  shows "teamHole st aidx hole c t1 t2 =
     (payTeam st (stakeForScore st c (holePar hole) (Fin (min b1 b2)))
        (if b1 < b2 then t1 else t2) (if b1 < b2 then t2 else t1)
        (replicate (length aidx) 0), 0)"
  using assms by (simp add: teamHole_def Let_def)

lemma teamHole_p0_settled:
  assumes "bestOfTeam aidx hole t1 = Fin b1" "bestOfTeam aidx hole t2 = Fin b2" "b1 \<noteq> b2"
  shows "teamHole_p0 st aidx hole c t1 t2 =
     (payTeam_p0 (stakeForScore st c (holePar_p0 hole) (Fin (min b1 b2)))
        (if b1 < b2 then t1 else t2) (if b1 < b2 then t2 else t1)
        (replicate (length aidx) 0), 0)"
proof -
  have "t1 \<noteq> []" "t2 \<noteq> []" using assms by auto
  then show ?thesis
    using assms by (simp add: teamHole_p0_def Let_def computeBaseStake_eq)
qed

lemma soloHole_settled:
  assumes "soloBest aidx hole ps = Fin b" "bestList aidx hole ps (Fin b) = [w]"
  shows "soloHole st aidx hole c ps =
     (paySolo (stakeForScore st c (holePar hole) (Fin b)) w ps (replicate (length aidx) 0), 0)"
  using assms by (simp add: soloHole_def Let_def)

lemma soloHole_p0_settled:
  assumes "mathMin (scoresOf aidx hole ps) = Fin b"
    "lowCompressed ps (scoresOf aidx hole ps) (Fin b) = [w]"
  shows "soloHole_p0 st aidx hole c ps =
     (bump w (stakeForScore st c (holePar_p0 hole) (Fin b) * of_nat (length (filter (\<lambda>aj. aj \<noteq> w) ps)))
        (fold (\<lambda>aj. bump aj (- stakeForScore st c (holePar_p0 hole) (Fin b)))
           (filter (\<lambda>aj. aj \<noteq> w) ps) (replicate (length aidx) 0)), 0)"
  using assms by (simp add: soloHole_p0_def Let_def computeBaseStake_eq)

text \<open>
  C2. In a decisively settled round the stake is the wager, times 1 plus the carry
  when carry-over is enabled (times 1 otherwise), times the multiplier of the winning
  side's best value: 3 when the triple option is enabled and that value is at most the
  target minus 2, else 2 when the double option is enabled and it equals the target
  minus 1, else 1; the multiplier is 1 when the winning value is not below the target.
  The payout of a settled round of either kind, in both versions, is made with this
  stake at the winning best value; the best value of the losing side does not occur in
  it.
\<close>

theorem C2_stake:
  "(let stake = (\<lambda>wb. wager st * (1 + (if carryOver st then of_nat c else 0)) *
                   (if eagleTriple st \<and> wb \<le> tg - 2 then 3
                    else if birdieDouble st \<and> wb = tg - 1 then 2 else 1));
        row0 = replicate (length aidx) 0
    in stakeForScore st c (Fin tg) (Fin v) = stake v
     \<and> computeBaseStake st c (Fin tg) (Fin v) = stake v
     \<and> (tg \<le> v \<longrightarrow> stakeForScore st c (Fin tg) (Fin v) = wager st * (1 + (if carryOver st then of_nat c else 0)))
     \<and> (holePar hole = Fin tg \<longrightarrow> teamBest aidx hole t1 = Fin b1 \<longrightarrow>
          teamBest aidx hole t2 = Fin b2 \<longrightarrow> b1 \<noteq> b2 \<longrightarrow>
          teamHole st aidx hole c t1 t2 =
            (payTeam st (stake (min b1 b2)) (if b1 < b2 then t1 else t2)
               (if b1 < b2 then t2 else t1) row0, 0))
     \<and> (holePar hole = Fin tg \<longrightarrow> soloBest aidx hole ps = Fin b \<longrightarrow>
          bestList aidx hole ps (Fin b) = [w] \<longrightarrow>
          soloHole st aidx hole c ps = (paySolo (stake b) w ps row0, 0))
     \<and> (holePar_p0 hole = Fin tg \<longrightarrow> bestOfTeam aidx hole t1 = Fin b1 \<longrightarrow>
          bestOfTeam aidx hole t2 = Fin b2 \<longrightarrow> b1 \<noteq> b2 \<longrightarrow>
          teamHole_p0 st aidx hole c t1 t2 =
            (payTeam_p0 (stake (min b1 b2)) (if b1 < b2 then t1 else t2)
               (if b1 < b2 then t2 else t1) row0, 0))
     \<and> (holePar_p0 hole = Fin tg \<longrightarrow> mathMin (scoresOf aidx hole ps) = Fin b \<longrightarrow>
          lowCompressed ps (scoresOf aidx hole ps) (Fin b) = [w] \<longrightarrow>
          soloHole_p0 st aidx hole c ps =
            (bump w (stake b * of_nat (length (filter (\<lambda>aj. aj \<noteq> w) ps)))
               (fold (\<lambda>aj. bump aj (- stake b)) (filter (\<lambda>aj. aj \<noteq> w) ps) row0), 0)))"
proof -
  define S where "S = (\<lambda>wb. wager st * (1 + (if carryOver st then of_nat c else 0)) *
                   (if eagleTriple st \<and> wb \<le> tg - 2 then 3
                    else if birdieDouble st \<and> wb = tg - 1 then (2::rat) else 1))"
  have eq: "stakeForScore st c (Fin tg) (Fin x) = S x" for x
    by (simp add: stakeForScore_Fin S_def)
  have 1: "stakeForScore st c (Fin tg) (Fin v) = S v"
    by (rule eq)
  have 2: "computeBaseStake st c (Fin tg) (Fin v) = S v"
    by (simp add: computeBaseStake_eq eq)
  have 3: "tg \<le> v \<longrightarrow> stakeForScore st c (Fin tg) (Fin v) =
      wager st * (1 + (if carryOver st then of_nat c else 0))"
    by (simp add: stakeForScore_Fin)
  have 4: "holePar hole = Fin tg \<longrightarrow> teamBest aidx hole t1 = Fin b1 \<longrightarrow>
          teamBest aidx hole t2 = Fin b2 \<longrightarrow> b1 \<noteq> b2 \<longrightarrow>
          teamHole st aidx hole c t1 t2 =
            (payTeam st (S (min b1 b2)) (if b1 < b2 then t1 else t2)
               (if b1 < b2 then t2 else t1) (replicate (length aidx) 0), 0)"
    using teamHole_settled [of aidx hole t1 b1 t2 b2 st c] eq by simp
  have 5: "holePar hole = Fin tg \<longrightarrow> soloBest aidx hole ps = Fin b \<longrightarrow>
          bestList aidx hole ps (Fin b) = [w] \<longrightarrow>
          soloHole st aidx hole c ps = (paySolo (S b) w ps (replicate (length aidx) 0), 0)"
    using soloHole_settled [of aidx hole ps b w st c] eq by simp
  have 6: "holePar_p0 hole = Fin tg \<longrightarrow> bestOfTeam aidx hole t1 = Fin b1 \<longrightarrow>
          bestOfTeam aidx hole t2 = Fin b2 \<longrightarrow> b1 \<noteq> b2 \<longrightarrow>
          teamHole_p0 st aidx hole c t1 t2 =
            (payTeam_p0 (S (min b1 b2)) (if b1 < b2 then t1 else t2)
               (if b1 < b2 then t2 else t1) (replicate (length aidx) 0), 0)"
    using teamHole_p0_settled [of aidx hole t1 b1 t2 b2 st c] eq by simp
  have 7: "holePar_p0 hole = Fin tg \<longrightarrow> mathMin (scoresOf aidx hole ps) = Fin b \<longrightarrow>
          lowCompressed ps (scoresOf aidx hole ps) (Fin b) = [w] \<longrightarrow>
          soloHole_p0 st aidx hole c ps =
            (bump w (S b * of_nat (length (filter (\<lambda>aj. aj \<noteq> w) ps)))
               (fold (\<lambda>aj. bump aj (- S b)) (filter (\<lambda>aj. aj \<noteq> w) ps)
                  (replicate (length aidx) 0)), 0)"
    using soloHole_p0_settled [of aidx hole ps b w st c] eq by simp
  from 1 2 3 4 5 6 7 show ?thesis
    unfolding Let_def S_def by blast
qed

theorem C2_stake_witness:
  "stakeForScore \<lparr>wager = 2, carryOver = True, soloDouble = False, birdieDouble = True, eagleTriple = True\<rparr>
     1 (Fin 4) (Fin 2) = 12
   \<and> teamHole \<lparr>wager = 2, carryOver = True, soloDouble = False, birdieDouble = True, eagleTriple = True\<rparr>
       [0, 1, 2]
       \<lparr>par = Some (Fin 4), teamPicks = [T1, T2, T2], scores = [Some (Fin 2), Some (Fin 4), Some (Fin 5)]\<rparr>
       1 [0] [1, 2]
     = (payTeam \<lparr>wager = 2, carryOver = True, soloDouble = False, birdieDouble = True, eagleTriple = True\<rparr>
          12 [0] [1, 2] [0, 0, 0], 0)
   \<and> soloHole \<lparr>wager = 2, carryOver = True, soloDouble = False, birdieDouble = True, eagleTriple = True\<rparr>
       [0, 1, 2]
       \<lparr>par = Some (Fin 4), teamPicks = [T1, T2, T2], scores = [Some (Fin 2), Some (Fin 4), Some (Fin 5)]\<rparr>
       1 [0, 1, 2]
     = (paySolo 12 0 [0, 1, 2] [0, 0, 0], 0)
   \<and> teamHole_p0 \<lparr>wager = 2, carryOver = True, soloDouble = False, birdieDouble = True, eagleTriple = True\<rparr>
       [0, 1, 2]
       \<lparr>par = Some (Fin 4), teamPicks = [T1, T2, T2], scores = [Some (Fin 2), Some (Fin 4), Some (Fin 5)]\<rparr>
       1 [0] [1, 2]
     = (payTeam_p0 12 [0] [1, 2] [0, 0, 0], 0)
   \<and> fst (soloHole_p0 \<lparr>wager = 2, carryOver = True, soloDouble = False, birdieDouble = True, eagleTriple = True\<rparr>
       [0, 1, 2]
       \<lparr>par = Some (Fin 4), teamPicks = [T1, T2, T2], scores = [Some (Fin 2), Some (Fin 4), Some (Fin 5)]\<rparr>
       1 [0, 1, 2])
     = bump 0 (12 * 2) (fold (\<lambda>aj. bump aj (- 12)) [1, 2] [0, 0, 0])"
proof -
  let ?s = "\<lparr>wager = 2, carryOver = True, soloDouble = False, birdieDouble = True, eagleTriple = True\<rparr>"
  let ?h = "\<lparr>par = Some (Fin 4), teamPicks = [T1, T2, T2], scores = [Some (Fin 2), Some (Fin 4), Some (Fin 5)]\<rparr>"
  have p: "holePar ?h = Fin 4" "holePar_p0 ?h = Fin 4"
    by code_simp+
  have t: "teamBest [0, 1, 2] ?h [0] = Fin 2" "teamBest [0, 1, 2] ?h [1, 2] = Fin 4"
    "bestOfTeam [0, 1, 2] ?h [0] = Fin 2" "bestOfTeam [0, 1, 2] ?h [1, 2] = Fin 4"
    by code_simp+
  have i: "soloBest [0, 1, 2] ?h [0, 1, 2] = Fin 2" "bestList [0, 1, 2] ?h [0, 1, 2] (Fin 2) = [0]"
    "mathMin (scoresOf [0, 1, 2] ?h [0, 1, 2]) = Fin 2"
    "lowCompressed [0, 1, 2] (scoresOf [0, 1, 2] ?h [0, 1, 2]) (Fin 2) = [0]"
    by code_simp+
  show ?thesis
    using p t i
      C2_stake [where st = ?s and c = 1 and tg = 4 and v = 2 and aidx = "[0, 1, 2]" and hole = ?h
        and ?t1.0 = "[0]" and ?t2.0 = "[1, 2]" and ?b1.0 = 2 and ?b2.0 = 4
        and ps = "[0, 1, 2]" and b = 2 and w = 0]
    by (simp add: Let_def)
qed

subsection \<open>The entries of a row\<close>

lemma nth_bump: "i < length row \<Longrightarrow> bump j d row ! i = (if i = j then row ! i + d else row ! i)"
  by (simp add: bump_def)

lemma nth_fold_bump:
  "distinct xs \<Longrightarrow> i < length row \<Longrightarrow>
   fold (\<lambda>aj. bump aj d) xs row ! i = (if i \<in> set xs then row ! i + d else row ! i)"
proof (induction xs arbitrary: row)
  case Nil
  then show ?case by simp
next
  case (Cons x xs)
  then show ?case by (auto simp: nth_bump)
qed

lemma teamOf_disjoint: "aj \<in> set (teamOf T1 aidx hole) \<Longrightarrow> aj \<notin> set (teamOf T2 aidx hole)"
  by (simp add: teamOf_def)

lemma holeStep_team:
  "teamOf T1 aidx hole \<noteq> [] \<Longrightarrow> teamOf T2 aidx hole \<noteq> [] \<Longrightarrow>
   holeStep st aidx hole c = teamHole st aidx hole c (teamOf T1 aidx hole) (teamOf T2 aidx hole)"
  by (simp add: holeStep_def Let_def)

lemma holeStep_p0_team:
  "teamOf T1 aidx hole \<noteq> [] \<Longrightarrow> teamOf T2 aidx hole \<noteq> [] \<Longrightarrow>
   holeStep_p0 st aidx hole c = teamHole_p0 st aidx hole c (teamOf T1 aidx hole) (teamOf T2 aidx hole)"
  by (simp add: holeStep_p0_def Let_def)

lemma split_symmetry:
  fixes s :: rat
  assumes "1 \<le> W" "1 \<le> L"
  shows "(if W \<ge> L then s else s * (of_nat L / of_nat W)) * of_nat W =
         (if W > L then s * (of_nat W / of_nat L) else s) * of_nat (L::nat)"
proof -
  have "(of_nat W :: rat) \<noteq> 0" "(of_nat L :: rat) \<noteq> 0" using assms by simp_all
  then show ?thesis by (auto simp: field_simps)
qed

lemma payTeam_entries:
  assumes d: "distinct ws" "distinct ls" "set ws \<inter> set ls = {}"
    and n: "\<not> (soloDouble st \<and> length ws = 1 \<and> length ls \<ge> 2)"
    and b: "\<forall>aj \<in> set ws. aj < n" "\<forall>aj \<in> set ls. aj < n"
  shows "(\<forall>aj \<in> set ws. payTeam st s ws ls (replicate n 0) ! aj =
            (if length ws \<ge> length ls then s else s * (of_nat (length ls) / of_nat (length ws))))
       \<and> (\<forall>aj \<in> set ls. payTeam st s ws ls (replicate n 0) ! aj =
            - (if length ws > length ls then s * (of_nat (length ws) / of_nat (length ls)) else s))"
  using d b n by (auto simp: payTeam_def Let_def nth_fold_bump)

lemma payTeam_p0_entries:
  assumes d: "distinct ws" "distinct ls" "set ws \<inter> set ls = {}"
    and b: "\<forall>aj \<in> set ws. aj < n" "\<forall>aj \<in> set ls. aj < n"
  shows "(\<forall>aj \<in> set ws. payTeam_p0 s ws ls (replicate n 0) ! aj =
            (if length ws \<ge> length ls then s else s * (of_nat (length ls) / of_nat (length ws))))
       \<and> (\<forall>aj \<in> set ls. payTeam_p0 s ws ls (replicate n 0) ! aj =
            - (if length ws > length ls then s * (of_nat (length ws) / of_nat (length ls)) else s))"
  using d b by (auto simp: payTeam_p0_def Let_def nth_fold_bump)

lemma teamHole_entries:
  assumes t: "distinct t1" "distinct t2" "set t1 \<inter> set t2 = {}"
      "\<forall>aj \<in> set t1. aj < length aidx" "\<forall>aj \<in> set t2. aj < length aidx"
    and b: "teamBest aidx hole t1 = Fin b1" "teamBest aidx hole t2 = Fin b2" "b1 \<noteq> b2"
    and ws: "ws = (if b1 < b2 then t1 else t2)" and ls: "ls = (if b1 < b2 then t2 else t1)"
    and n: "\<not> (soloDouble st \<and> length ws = 1 \<and> length ls \<ge> 2)"
    and s: "s = stakeForScore st c (holePar hole) (Fin (min b1 b2))"
  shows "(\<forall>aj \<in> set ws. fst (teamHole st aidx hole c t1 t2) ! aj =
            (if length ws \<ge> length ls then s else s * (of_nat (length ls) / of_nat (length ws))))
       \<and> (\<forall>aj \<in> set ls. fst (teamHole st aidx hole c t1 t2) ! aj =
            - (if length ws > length ls then s * (of_nat (length ws) / of_nat (length ls)) else s))"
proof -
  have r: "fst (teamHole st aidx hole c t1 t2) = payTeam st s ws ls (replicate (length aidx) 0)"
    using teamHole_settled [OF b] ws ls s by simp
  have d: "distinct ws" "distinct ls" "set ws \<inter> set ls = {}"
    "\<forall>aj \<in> set ws. aj < length aidx" "\<forall>aj \<in> set ls. aj < length aidx"
    using t ws ls by auto
  show ?thesis
    unfolding r using payTeam_entries [OF d(1,2,3) n d(4,5)] by blast
qed

lemma teamHole_p0_entries:
  assumes t: "distinct t1" "distinct t2" "set t1 \<inter> set t2 = {}"
      "\<forall>aj \<in> set t1. aj < length aidx" "\<forall>aj \<in> set t2. aj < length aidx"
    and b: "bestOfTeam aidx hole t1 = Fin b1" "bestOfTeam aidx hole t2 = Fin b2" "b1 \<noteq> b2"
    and ws: "ws = (if b1 < b2 then t1 else t2)" and ls: "ls = (if b1 < b2 then t2 else t1)"
    and s: "s = stakeForScore st c (holePar_p0 hole) (Fin (min b1 b2))"
  shows "(\<forall>aj \<in> set ws. fst (teamHole_p0 st aidx hole c t1 t2) ! aj =
            (if length ws \<ge> length ls then s else s * (of_nat (length ls) / of_nat (length ws))))
       \<and> (\<forall>aj \<in> set ls. fst (teamHole_p0 st aidx hole c t1 t2) ! aj =
            - (if length ws > length ls then s * (of_nat (length ws) / of_nat (length ls)) else s))"
proof -
  have r: "fst (teamHole_p0 st aidx hole c t1 t2) = payTeam_p0 s ws ls (replicate (length aidx) 0)"
    using teamHole_p0_settled [OF b] ws ls s by simp
  have d: "distinct ws" "distinct ls" "set ws \<inter> set ls = {}"
    "\<forall>aj \<in> set ws. aj < length aidx" "\<forall>aj \<in> set ls. aj < length aidx"
    using t ws ls by auto
  show ?thesis
    unfolding r using payTeam_p0_entries [OF d] by blast
qed

lemma teams_wf:
  "distinct (teamOf T1 aidx hole)" "distinct (teamOf T2 aidx hole)"
  "set (teamOf T1 aidx hole) \<inter> set (teamOf T2 aidx hole) = {}"
  "\<forall>aj \<in> set (teamOf T1 aidx hole). aj < length aidx"
  "\<forall>aj \<in> set (teamOf T2 aidx hole). aj < length aidx"
  using teamOf_disjoint by (auto simp: distinct_teamOf teamOf_bound)

text \<open>
  C3. In a two-sided, decisively settled round with W winners and L losers, both W and
  L are at least 1, the gain of a winner (the stake when W >= L, the stake times L / W
  otherwise) times W equals the loss of a loser (the stake times W / L when W > L, the
  stake otherwise) times L, and, where the minority-win doubling does not apply, every
  winner's delta is that gain and every loser's delta is minus that loss. The version of
  part_000 has no doubling. The equality of total gains and total losses holds for all
  sizes W' and L' of at least 1 and every stake s.
\<close>

theorem C3_team_payout:
  "(let t1 = teamOf T1 aidx hole; t2 = teamOf T2 aidx hole;
        winners = (if b1 < b2 then t1 else t2); losers = (if b1 < b2 then t2 else t1);
        W = length winners; L = length losers
    in (teamBest aidx hole t1 = Fin b1 \<longrightarrow> teamBest aidx hole t2 = Fin b2 \<longrightarrow> b1 \<noteq> b2 \<longrightarrow>
         (let stake = stakeForScore st c (holePar hole) (Fin (min b1 b2));
              perWinnerGain = (if W \<ge> L then stake else stake * (of_nat L / of_nat W));
              perLoserLoss = (if W > L then stake * (of_nat W / of_nat L) else stake);
              row = fst (holeStep st aidx hole c)
          in 1 \<le> W \<and> 1 \<le> L \<and> perWinnerGain * of_nat W = perLoserLoss * of_nat L
             \<and> (\<not> (soloDouble st \<and> W = 1 \<and> L \<ge> 2) \<longrightarrow>
                  (\<forall>aj \<in> set winners. row ! aj = perWinnerGain)
                  \<and> (\<forall>aj \<in> set losers. row ! aj = - perLoserLoss))))
     \<and> (bestOfTeam aidx hole t1 = Fin b1 \<longrightarrow> bestOfTeam aidx hole t2 = Fin b2 \<longrightarrow> b1 \<noteq> b2 \<longrightarrow>
         (let baseStake = computeBaseStake st c (holePar_p0 hole) (Fin (min b1 b2));
              perWinner = (if W \<ge> L then baseStake else baseStake * (of_nat L / of_nat W));
              perLoser = (if W > L then baseStake * (of_nat W / of_nat L) else baseStake);
              row = fst (holeStep_p0 st aidx hole c)
          in 1 \<le> W \<and> 1 \<le> L \<and> perWinner * of_nat W = perLoser * of_nat L
             \<and> (\<forall>aj \<in> set winners. row ! aj = perWinner)
             \<and> (\<forall>aj \<in> set losers. row ! aj = - perLoser))))
   \<and> (1 \<le> W' \<longrightarrow> 1 \<le> L' \<longrightarrow>
        (if W' \<ge> L' then s else s * (of_nat L' / of_nat W')) * of_nat W' =
        (if W' > L' then s * (of_nat W' / of_nat L') else (s::rat)) * of_nat (L'::nat))"
proof -
  define t1 where "t1 = teamOf T1 aidx hole"
  define t2 where "t2 = teamOf T2 aidx hole"
  define ws where "ws = (if b1 < b2 then t1 else t2)"
  define ls where "ls = (if b1 < b2 then t2 else t1)"
  note wf = teams_wf [of aidx hole, folded t1_def t2_def]
  have A: "1 \<le> length ws \<and> 1 \<le> length ls
      \<and> (if length ws \<ge> length ls then s0 else s0 * (of_nat (length ls) / of_nat (length ws))) * of_nat (length ws)
        = (if length ws > length ls then s0 * (of_nat (length ws) / of_nat (length ls)) else s0) * of_nat (length ls)"
    if "t1 \<noteq> []" "t2 \<noteq> []" for s0 :: rat
  proof -
    have "1 \<le> length ws" "1 \<le> length ls"
      using that by (auto simp: ws_def ls_def Suc_le_eq)
    then show ?thesis using split_symmetry by blast
  qed
  have B: "1 \<le> length ws \<and> 1 \<le> length ls
      \<and> (if length ws \<ge> length ls then s0 else s0 * (of_nat (length ls) / of_nat (length ws))) * of_nat (length ws)
        = (if length ws > length ls then s0 * (of_nat (length ws) / of_nat (length ls)) else s0) * of_nat (length ls)
      \<and> (\<not> (soloDouble st \<and> length ws = 1 \<and> length ls \<ge> 2) \<longrightarrow>
          (\<forall>aj \<in> set ws. fst (holeStep st aidx hole c) ! aj =
             (if length ws \<ge> length ls then s0 else s0 * (of_nat (length ls) / of_nat (length ws))))
        \<and> (\<forall>aj \<in> set ls. fst (holeStep st aidx hole c) ! aj =
             - (if length ws > length ls then s0 * (of_nat (length ws) / of_nat (length ls)) else s0)))"
    if b: "teamBest aidx hole t1 = Fin b1" "teamBest aidx hole t2 = Fin b2" "b1 \<noteq> b2"
      and s0: "s0 = stakeForScore st c (holePar hole) (Fin (min b1 b2))" for s0
  proof -
    have ne: "t1 \<noteq> []" "t2 \<noteq> []" using b by auto
    have h: "holeStep st aidx hole c = teamHole st aidx hole c t1 t2"
      using ne holeStep_team unfolding t1_def t2_def by simp
    show ?thesis
      using A [OF ne] teamHole_entries [OF wf b ws_def ls_def _ s0] unfolding h by blast
  qed
  have C: "1 \<le> length ws \<and> 1 \<le> length ls
      \<and> (if length ws \<ge> length ls then s0 else s0 * (of_nat (length ls) / of_nat (length ws))) * of_nat (length ws)
        = (if length ws > length ls then s0 * (of_nat (length ws) / of_nat (length ls)) else s0) * of_nat (length ls)
      \<and> (\<forall>aj \<in> set ws. fst (holeStep_p0 st aidx hole c) ! aj =
             (if length ws \<ge> length ls then s0 else s0 * (of_nat (length ls) / of_nat (length ws))))
      \<and> (\<forall>aj \<in> set ls. fst (holeStep_p0 st aidx hole c) ! aj =
             - (if length ws > length ls then s0 * (of_nat (length ws) / of_nat (length ls)) else s0))"
    if b: "bestOfTeam aidx hole t1 = Fin b1" "bestOfTeam aidx hole t2 = Fin b2" "b1 \<noteq> b2"
      and s0: "s0 = computeBaseStake st c (holePar_p0 hole) (Fin (min b1 b2))" for s0
  proof -
    have ne: "t1 \<noteq> []" "t2 \<noteq> []" using b by auto
    have h: "holeStep_p0 st aidx hole c = teamHole_p0 st aidx hole c t1 t2"
      using ne holeStep_p0_team unfolding t1_def t2_def by simp
    have s1: "s0 = stakeForScore st c (holePar_p0 hole) (Fin (min b1 b2))"
      using s0 by (simp add: computeBaseStake_eq)
    show ?thesis
      using A [OF ne] teamHole_p0_entries [OF wf b ws_def ls_def s1] unfolding h by blast
  qed
  have D: "1 \<le> W' \<longrightarrow> 1 \<le> L' \<longrightarrow>
        (if W' \<ge> L' then s else s * (of_nat L' / of_nat W')) * of_nat W' =
        (if W' > L' then s * (of_nat W' / of_nat L') else (s::rat)) * of_nat (L'::nat)"
    using split_symmetry by blast
  show ?thesis
    unfolding Let_def
    using B [OF _ _ _ refl] C [OF _ _ _ refl] D
    unfolding ws_def ls_def t1_def t2_def
    by blast
qed

theorem C3_team_payout_witness:
  "fst (holeStep \<lparr>wager = 1, carryOver = False, soloDouble = True, birdieDouble = False, eagleTriple = False\<rparr>
     [0, 1, 2, 3, 4]
     \<lparr>par = Some (Fin 4), teamPicks = [T1, T1, T2, T2, T2],
      scores = [Some (Fin 4), Some (Fin 5), Some (Fin 5), Some (Fin 5), Some (Fin 5)]\<rparr> 0) ! 0 = 3 / 2
   \<and> fst (holeStep \<lparr>wager = 1, carryOver = False, soloDouble = True, birdieDouble = False, eagleTriple = False\<rparr>
     [0, 1, 2, 3, 4]
     \<lparr>par = Some (Fin 4), teamPicks = [T1, T1, T2, T2, T2],
      scores = [Some (Fin 4), Some (Fin 5), Some (Fin 5), Some (Fin 5), Some (Fin 5)]\<rparr> 0) ! 4 = - 1
   \<and> fst (holeStep_p0 \<lparr>wager = 1, carryOver = False, soloDouble = True, birdieDouble = False, eagleTriple = False\<rparr>
     [0, 1, 2, 3, 4]
     \<lparr>par = Some (Fin 4), teamPicks = [T1, T1, T2, T2, T2],
      scores = [Some (Fin 4), Some (Fin 5), Some (Fin 5), Some (Fin 5), Some (Fin 5)]\<rparr> 0) ! 1 = 3 / 2
   \<and> fst (holeStep_p0 \<lparr>wager = 1, carryOver = False, soloDouble = True, birdieDouble = False, eagleTriple = False\<rparr>
     [0, 1, 2, 3, 4]
     \<lparr>par = Some (Fin 4), teamPicks = [T1, T1, T2, T2, T2],
      scores = [Some (Fin 4), Some (Fin 5), Some (Fin 5), Some (Fin 5), Some (Fin 5)]\<rparr> 0) ! 2 = - 1
   \<and> (3 / 2) * of_nat 2 = (1 :: rat) * of_nat 3"
proof -
  let ?s = "\<lparr>wager = 1, carryOver = False, soloDouble = True, birdieDouble = False, eagleTriple = False\<rparr>"
  let ?h = "\<lparr>par = Some (Fin 4), teamPicks = [T1, T1, T2, T2, T2],
      scores = [Some (Fin 4), Some (Fin 5), Some (Fin 5), Some (Fin 5), Some (Fin 5)]\<rparr>"
  let ?a = "[0, 1, 2, 3, 4 :: nat]"
  have t: "teamOf T1 ?a ?h = [0, 1]" "teamOf T2 ?a ?h = [2, 3, 4]"
    by code_simp+
  have b: "teamBest ?a ?h [0, 1] = Fin 4" "teamBest ?a ?h [2, 3, 4] = Fin 5"
    "bestOfTeam ?a ?h [0, 1] = Fin 4" "bestOfTeam ?a ?h [2, 3, 4] = Fin 5"
    by code_simp+
  have s: "stakeForScore ?s 0 (holePar ?h) (Fin 4) = 1" "computeBaseStake ?s 0 (holePar_p0 ?h) (Fin 4) = 1"
    by code_simp+
  note th = C3_team_payout [where aidx = ?a and hole = ?h and ?b1.0 = 4 and ?b2.0 = 5 and st = ?s
        and c = 0 and W' = 2 and L' = 3 and s = 1, unfolded Let_def t b]
  show ?thesis
    using th s by simp
qed

subsection \<open>Individual mode\<close>

lemma bump_commute: "bump i a (bump j b r) = bump j b (bump i a r)"
  by (auto simp: list_eq_iff_nth_eq nth_bump)

lemma bump_twice: "bump i a (bump i b r) = bump i (b + a) r"
  by (auto simp: list_eq_iff_nth_eq nth_bump)

lemma bump_zero [simp]: "bump i 0 r = r"
  by (simp add: bump_def)

lemma fold_bump_commute:
  "fold (\<lambda>aj. bump aj d) xs (bump i a r) = bump i a (fold (\<lambda>aj. bump aj d) xs r)"
proof (induction xs arbitrary: r)
  case Nil
  then show ?case by simp
next
  case (Cons x xs)
  then show ?case by (simp add: bump_commute [of x d i a])
qed

lemma paySolo_alt:
  "paySolo s w ps row =
     bump w (s * of_nat (length (filter (\<lambda>aj. aj \<noteq> w) ps)))
       (fold (\<lambda>aj. bump aj (- s)) (filter (\<lambda>aj. aj \<noteq> w) ps) row)"
proof (induction ps arbitrary: row)
  case Nil
  then show ?case by (simp add: paySolo_def)
next
  case (Cons x ps)
  show ?case
  proof (cases "x = w")
    case True
    then show ?thesis using Cons [of row] by (simp add: paySolo_def)
  next
    case False
    have "paySolo s w (x # ps) row = paySolo s w ps (bump w s (bump x (- s) row))"
      using False by (simp add: paySolo_def)
    also have "\<dots> = bump w (s * of_nat (length (filter (\<lambda>aj. aj \<noteq> w) ps)))
        (bump w s (fold (\<lambda>aj. bump aj (- s)) (filter (\<lambda>aj. aj \<noteq> w) ps) (bump x (- s) row)))"
      by (simp add: Cons fold_bump_commute)
    finally show ?thesis
      using False by (simp add: bump_twice algebra_simps)
  qed
qed

lemma length_filter_others:
  "distinct ps \<Longrightarrow> w \<in> set ps \<Longrightarrow> length (filter (\<lambda>aj. aj \<noteq> w) ps) = length ps - 1"
proof (induction ps)
  case Nil
  then show ?case by simp
next
  case (Cons x ps)
  show ?case
  proof (cases "x = w")
    case True
    then have "filter (\<lambda>aj. aj \<noteq> w) ps = ps"
      using Cons.prems by (auto simp: filter_id_conv)
    then show ?thesis using True by simp
  next
    case False
    then have "w \<in> set ps" "0 < length ps" using Cons.prems by auto
    then show ?thesis using False Cons by simp
  qed
qed

lemma solo_entries:
  fixes s :: rat
  assumes "distinct ps" "w \<in> set ps" "\<forall>aj \<in> set ps. aj < n"
  defines "row \<equiv> bump w (s * of_nat (length (filter (\<lambda>aj. aj \<noteq> w) ps)))
       (fold (\<lambda>aj. bump aj (- s)) (filter (\<lambda>aj. aj \<noteq> w) ps) (replicate n 0))"
  shows "row ! w = s * of_nat (length ps - 1)"
    and "\<forall>aj \<in> set ps. aj \<noteq> w \<longrightarrow> row ! aj = - s"
    and "\<forall>aj < n. aj \<notin> set ps \<longrightarrow> row ! aj = 0"
  using assms(1-3) unfolding row_def
  by (auto simp: nth_bump nth_fold_bump length_filter_others)

lemma js_min_PInf [simp]: "js_min a PInf = a"
  by (cases a) simp_all

lemma soloBest_mathMin: "soloBest aidx hole ps = mathMin (scoresOf aidx hole ps)"
proof -
  have "fold (\<lambda>aj best. case scoreAt hole (aidx ! aj) of None \<Rightarrow> best | Some v \<Rightarrow> js_min best v) ps acc
      = fold (\<lambda>v b. js_min b v)
          (map (\<lambda>aj. case scoreAt hole (aidx ! aj) of None \<Rightarrow> PInf | Some v \<Rightarrow> v) ps) acc" for acc
    by (induction ps arbitrary: acc) (simp_all split: option.splits)
  then show ?thesis by (simp add: soloBest_def mathMin_def scoresOf_def)
qed

lemma map_filter_index: "map (\<lambda>k. xs ! k) (filter (\<lambda>k. P (xs ! k)) [0..<length xs]) = filter P xs"
proof (induction xs rule: rev_induct)
  case Nil
  then show ?case by simp
next
  case (snoc x xs)
  have "filter (\<lambda>k. P ((xs @ [x]) ! k)) [0..<length xs] = filter (\<lambda>k. P (xs ! k)) [0..<length xs]"
    by (rule filter_cong) (simp_all add: nth_append)
  moreover have "map (\<lambda>k. (xs @ [x]) ! k) (filter (\<lambda>k. P (xs ! k)) [0..<length xs])
      = map (\<lambda>k. xs ! k) (filter (\<lambda>k. P (xs ! k)) [0..<length xs])"
    by (rule map_cong) (simp_all add: nth_append)
  ultimately show ?case using snoc by simp
qed

lemma lowCompressed_filter:
  "lowCompressed ps (scoresOf aidx hole ps) best =
     filter (\<lambda>aj. js_seq (case scoreAt hole (aidx ! aj) of None \<Rightarrow> PInf | Some v \<Rightarrow> v) best) ps"
proof -
  have "filter (\<lambda>k. js_seq (scoresOf aidx hole ps ! k) best) [0..<length ps]
      = filter (\<lambda>k. js_seq (case scoreAt hole (aidx ! (ps ! k)) of None \<Rightarrow> PInf | Some v \<Rightarrow> v) best)
          [0..<length ps]"
    by (rule filter_cong) (simp_all add: scoresOf_def)
  then show ?thesis
    unfolding lowCompressed_def
    using map_filter_index [of ps "\<lambda>aj. js_seq (case scoreAt hole (aidx ! aj) of None \<Rightarrow> PInf | Some v \<Rightarrow> v) best"]
    by simp
qed

lemma lowCompressed_bestList:
  "lowCompressed ps (scoresOf aidx hole ps) (Fin b) = bestList aidx hole ps (Fin b)"
  unfolding lowCompressed_filter bestList_def
  by (rule filter_cong) (simp_all split: option.splits)

text \<open>A value above \<open>b\<close>: a larger finite number or \<^verbatim>\<open>Infinity\<close>.\<close>

lemma js_min_above:
  "js_lt (Fin b) a \<Longrightarrow> js_min a (Fin b) = Fin b"
  "js_lt (Fin b) v \<Longrightarrow> js_min (Fin b) v = Fin b"
  "js_lt (Fin b) a \<Longrightarrow> js_lt (Fin b) v \<Longrightarrow> js_lt (Fin b) (js_min a v)"
  by (cases a; cases v; simp; fail)+

lemma js_seq_above: "js_lt (Fin b) v \<Longrightarrow> \<not> js_seq v (Fin b)"
  by (cases v) simp_all

lemma mathMin_above:
  "js_lt (Fin b) acc \<Longrightarrow> \<forall>v \<in> set vs. js_lt (Fin b) v \<Longrightarrow>
   js_lt (Fin b) (fold (\<lambda>v a. js_min a v) vs acc)"
  by (induction vs arbitrary: acc) (simp_all add: js_min_above)

lemma mathMin_reached:
  "\<forall>v \<in> set vs. v = Fin b \<or> js_lt (Fin b) v \<Longrightarrow> fold (\<lambda>v a. js_min a v) vs (Fin b) = Fin b"
  by (induction vs) (auto simp: js_min_above)

lemma mathMin_unique:
  assumes "Fin b \<in> set vs" "\<forall>v \<in> set vs. v = Fin b \<or> js_lt (Fin b) v"
  shows "mathMin vs = Fin b"
proof -
  obtain pre post where vs: "vs = pre @ Fin b # post" "Fin b \<notin> set pre"
    using split_list_first [OF assms(1)] by blast
  have "\<forall>v \<in> set pre. js_lt (Fin b) v"
  proof
    fix v assume v: "v \<in> set pre"
    then have "v \<in> set vs" "v \<noteq> Fin b" using vs by auto
    then show "js_lt (Fin b) v" using assms(2) by blast
  qed
  then have "js_lt (Fin b) (fold (\<lambda>v a. js_min a v) pre PInf)"
    by (intro mathMin_above) simp_all
  then have "js_min (fold (\<lambda>v a. js_min a v) pre PInf) (Fin b) = Fin b"
    by (rule js_min_above)
  moreover have "fold (\<lambda>v a. js_min a v) post (Fin b) = Fin b"
    using assms(2) vs by (intro mathMin_reached) auto
  ultimately show ?thesis by (simp add: mathMin_def vs)
qed

lemma filter_single:
  "distinct ps \<Longrightarrow> w \<in> set ps \<Longrightarrow> \<forall>aj \<in> set ps. P aj \<longleftrightarrow> aj = w \<Longrightarrow> filter P ps = [w]"
proof (induction ps)
  case Nil
  then show ?case by simp
next
  case (Cons x ps)
  show ?case
  proof (cases "x = w")
    case True
    then have "filter P ps = []" using Cons.prems by (auto simp: filter_empty_conv)
    then show ?thesis using True Cons.prems by simp
  next
    case False
    then show ?thesis using Cons by auto
  qed
qed

lemma solo_unique_low:
  assumes d: "distinct ps" and w: "w \<in> set ps" "scoreAt hole (aidx ! w) = Some (Fin b)"
    and o: "\<forall>aj \<in> set ps. aj \<noteq> w \<longrightarrow>
              (case scoreAt hole (aidx ! aj) of None \<Rightarrow> True | Some v \<Rightarrow> js_lt (Fin b) v)"
  shows "soloBest aidx hole ps = Fin b" and "bestList aidx hole ps (Fin b) = [w]"
proof -
  have "Fin b \<in> set (scoresOf aidx hole ps)"
    using w by (force simp: scoresOf_def)
  moreover have "\<forall>v \<in> set (scoresOf aidx hole ps). v = Fin b \<or> js_lt (Fin b) v"
    using w o by (auto simp: scoresOf_def split: option.splits)
  ultimately show "soloBest aidx hole ps = Fin b"
    by (simp add: soloBest_mathMin mathMin_unique)
  have "\<forall>aj \<in> set ps. (case scoreAt hole (aidx ! aj) of None \<Rightarrow> False | Some v \<Rightarrow> js_seq v (Fin b))
      \<longleftrightarrow> aj = w"
  proof
    fix aj assume aj: "aj \<in> set ps"
    show "(case scoreAt hole (aidx ! aj) of None \<Rightarrow> False | Some v \<Rightarrow> js_seq v (Fin b)) \<longleftrightarrow> aj = w"
    proof (cases "aj = w")
      case True
      then show ?thesis using w by simp
    next
      case False
      then have "case scoreAt hole (aidx ! aj) of None \<Rightarrow> True | Some v \<Rightarrow> js_lt (Fin b) v"
        using o aj by blast
      then show ?thesis using False by (simp add: js_seq_above split: option.splits)
    qed
  qed
  then show "bestList aidx hole ps (Fin b) = [w]"
    unfolding bestList_def by (rule filter_single [OF d w(1)])
qed

lemma holeStep_solo:
  assumes "teamOf T1 aidx hole = [] \<or> teamOf T2 aidx hole = []"
    and "ps = (if teamOf T1 aidx hole \<noteq> [] then teamOf T1 aidx hole else teamOf T2 aidx hole)"
    and "ps \<noteq> []"
  shows "holeStep st aidx hole c = soloHole st aidx hole c ps"
    and "holeStep_p0 st aidx hole c = soloHole_p0 st aidx hole c ps"
  using assms by (auto simp: holeStep_def holeStep_p0_def Let_def)

lemma solo_team_wf:
  assumes "ps = (if teamOf T1 aidx hole \<noteq> [] then teamOf T1 aidx hole else teamOf T2 aidx hole)"
  shows "distinct ps" "\<forall>aj \<in> set ps. aj < length aidx"
  using assms by (auto simp: distinct_teamOf teamOf_bound)

lemma soloHole_entries:
  assumes d: "distinct ps" "\<forall>aj \<in> set ps. aj < length aidx"
    and w: "w \<in> set ps" "scoreAt hole (aidx ! w) = Some (Fin b)"
    and o: "\<forall>aj \<in> set ps. aj \<noteq> w \<longrightarrow>
              (case scoreAt hole (aidx ! aj) of None \<Rightarrow> True | Some v \<Rightarrow> js_lt (Fin b) v)"
    and s: "s = stakeForScore st c (holePar hole) (Fin b)"
    and r: "row = fst (soloHole st aidx hole c ps)"
  shows "row ! w = s * of_nat (length ps - 1)
       \<and> (\<forall>aj \<in> set ps. aj \<noteq> w \<longrightarrow> row ! aj = - s)
       \<and> (\<forall>aj < length aidx. aj \<notin> set ps \<longrightarrow> row ! aj = 0)"
proof -
  note u = solo_unique_low [OF d(1) w o]
  have "row = bump w (s * of_nat (length (filter (\<lambda>aj. aj \<noteq> w) ps)))
       (fold (\<lambda>aj. bump aj (- s)) (filter (\<lambda>aj. aj \<noteq> w) ps) (replicate (length aidx) 0))"
    unfolding r soloHole_settled [OF u] s by (simp add: paySolo_alt)
  then show ?thesis
    using solo_entries [OF d(1) w(1) d(2), of s] by blast
qed

lemma soloHole_p0_entries:
  assumes d: "distinct ps" "\<forall>aj \<in> set ps. aj < length aidx"
    and w: "w \<in> set ps" "scoreAt hole (aidx ! w) = Some (Fin b)"
    and o: "\<forall>aj \<in> set ps. aj \<noteq> w \<longrightarrow>
              (case scoreAt hole (aidx ! aj) of None \<Rightarrow> True | Some v \<Rightarrow> js_lt (Fin b) v)"
    and s: "s = computeBaseStake st c (holePar_p0 hole) (Fin b)"
    and r: "row = fst (soloHole_p0 st aidx hole c ps)"
  shows "row ! w = s * of_nat (length ps - 1)
       \<and> (\<forall>aj \<in> set ps. aj \<noteq> w \<longrightarrow> row ! aj = - s)
       \<and> (\<forall>aj < length aidx. aj \<notin> set ps \<longrightarrow> row ! aj = 0)"
proof -
  note u = solo_unique_low [OF d(1) w o]
  have m: "mathMin (scoresOf aidx hole ps) = Fin b"
    using u(1) by (simp add: soloBest_mathMin)
  have l: "lowCompressed ps (scoresOf aidx hole ps) (Fin b) = [w]"
    using u(2) by (simp add: lowCompressed_bestList)
  have "row = bump w (s * of_nat (length (filter (\<lambda>aj. aj \<noteq> w) ps)))
       (fold (\<lambda>aj. bump aj (- s)) (filter (\<lambda>aj. aj \<noteq> w) ps) (replicate (length aidx) 0))"
    unfolding r soloHole_p0_settled [OF m l] s by (simp add: computeBaseStake_eq)
  then show ?thesis
    using solo_entries [OF d(1) w(1) d(2), of s] by blast
qed

text \<open>
  C4. Take a round in which at most one of the two groups is populated, and a member w
  of the populated group whose recorded value b is finite while every other member of
  that group has either no recorded value or a recorded value strictly above b. Then the
  delta of w is the stake (at the value b) times the number of the other members of the
  group, the delta of every other member of the group is minus the stake, and the delta
  of every active participant outside the group is 0; in both versions.
\<close>

theorem C4_individual:
  "(let t1 = teamOf T1 aidx hole; t2 = teamOf T2 aidx hole;
        participants = (if t1 \<noteq> [] then t1 else t2)
    in (t1 = [] \<or> t2 = []) \<longrightarrow> w \<in> set participants \<longrightarrow>
       scoreAt hole (aidx ! w) = Some (Fin b) \<longrightarrow>
       (\<forall>aj \<in> set participants. aj \<noteq> w \<longrightarrow>
          (case scoreAt hole (aidx ! aj) of None \<Rightarrow> True | Some v \<Rightarrow> js_lt (Fin b) v)) \<longrightarrow>
       (let stake = stakeForScore st c (holePar hole) (Fin b);
            row = fst (holeStep st aidx hole c);
            baseStake = computeBaseStake st c (holePar_p0 hole) (Fin b);
            row_p0 = fst (holeStep_p0 st aidx hole c)
        in row ! w = stake * of_nat (length participants - 1)
           \<and> (\<forall>aj \<in> set participants. aj \<noteq> w \<longrightarrow> row ! aj = - stake)
           \<and> (\<forall>aj < length aidx. aj \<notin> set participants \<longrightarrow> row ! aj = 0)
           \<and> row_p0 ! w = baseStake * of_nat (length participants - 1)
           \<and> (\<forall>aj \<in> set participants. aj \<noteq> w \<longrightarrow> row_p0 ! aj = - baseStake)
           \<and> (\<forall>aj < length aidx. aj \<notin> set participants \<longrightarrow> row_p0 ! aj = 0)))"
proof -
  define ps where
    "ps = (if teamOf T1 aidx hole \<noteq> [] then teamOf T1 aidx hole else teamOf T2 aidx hole)"
  note wf = solo_team_wf [OF ps_def]
  have "row ! w = s * of_nat (length ps - 1)
       \<and> (\<forall>aj \<in> set ps. aj \<noteq> w \<longrightarrow> row ! aj = - s)
       \<and> (\<forall>aj < length aidx. aj \<notin> set ps \<longrightarrow> row ! aj = 0)
       \<and> row' ! w = s' * of_nat (length ps - 1)
       \<and> (\<forall>aj \<in> set ps. aj \<noteq> w \<longrightarrow> row' ! aj = - s')
       \<and> (\<forall>aj < length aidx. aj \<notin> set ps \<longrightarrow> row' ! aj = 0)"
    if e: "teamOf T1 aidx hole = [] \<or> teamOf T2 aidx hole = []"
      and w: "w \<in> set ps" "scoreAt hole (aidx ! w) = Some (Fin b)"
      and o: "\<forall>aj \<in> set ps. aj \<noteq> w \<longrightarrow>
              (case scoreAt hole (aidx ! aj) of None \<Rightarrow> True | Some v \<Rightarrow> js_lt (Fin b) v)"
      and s: "s = stakeForScore st c (holePar hole) (Fin b)"
      and r: "row = fst (holeStep st aidx hole c)"
      and s': "s' = computeBaseStake st c (holePar_p0 hole) (Fin b)"
      and r': "row' = fst (holeStep_p0 st aidx hole c)"
    for s row s' row'
  proof -
    have ne: "ps \<noteq> []" using w by auto
    note h = holeStep_solo [OF e ps_def ne]
    show ?thesis
      using soloHole_entries [OF wf w o s r [unfolded h]]
        soloHole_p0_entries [OF wf w o s' r' [unfolded h]]
      by blast
  qed
  from this [OF _ _ _ _ refl refl refl refl] show ?thesis
    unfolding Let_def ps_def by blast
qed

theorem C4_individual_witness:
  "fst (holeStep \<lparr>wager = 1, carryOver = False, soloDouble = False, birdieDouble = True, eagleTriple = False\<rparr>
     [0, 1, 2, 3, 4]
     \<lparr>par = Some (Fin 4), teamPicks = [T1, T1, T1, T1, Sit],
      scores = [Some (Fin 3), Some (Fin 4), None, Some (Fin 4), None]\<rparr> 0) = [6, - 2, - 2, - 2, 0]
   \<and> fst (holeStep_p0 \<lparr>wager = 1, carryOver = False, soloDouble = False, birdieDouble = True, eagleTriple = False\<rparr>
     [0, 1, 2, 3, 4]
     \<lparr>par = Some (Fin 4), teamPicks = [T1, T1, T1, T1, Sit],
      scores = [Some (Fin 3), Some (Fin 4), None, Some (Fin 4), None]\<rparr> 0) = [6, - 2, - 2, - 2, 0]"
proof -
  let ?s = "\<lparr>wager = 1, carryOver = False, soloDouble = False, birdieDouble = True, eagleTriple = False\<rparr>"
  let ?h = "\<lparr>par = Some (Fin 4), teamPicks = [T1, T1, T1, T1, Sit],
      scores = [Some (Fin 3), Some (Fin 4), None, Some (Fin 4), None]\<rparr>"
  let ?a = "[0, 1, 2, 3, 4 :: nat]"
  let ?r = "fst (holeStep ?s ?a ?h 0)" and ?r' = "fst (holeStep_p0 ?s ?a ?h 0)"
  have t: "teamOf T1 ?a ?h = [0, 1, 2, 3]" "teamOf T2 ?a ?h = []"
    by code_simp+
  have s: "stakeForScore ?s 0 (holePar ?h) (Fin 3) = 2" "computeBaseStake ?s 0 (holePar_p0 ?h) (Fin 3) = 2"
    by code_simp+
  have sc: "scoreAt ?h (?a ! 0) = Some (Fin 3)" "scoreAt ?h (?a ! 1) = Some (Fin 4)"
    "scoreAt ?h (?a ! 2) = None" "scoreAt ?h (?a ! 3) = Some (Fin 4)"
    by code_simp+
  have l: "length ?r = 5" "length ?r' = 5"
    using holeStep_row [of ?s ?a ?h 0] holeStep_p0_row [of ?s ?a ?h 0] by simp_all
  note th = C4_individual [where aidx = ?a and hole = ?h and w = 0 and b = 3 and st = ?s and c = 0,
      unfolded Let_def t s]
  have e: "?r ! 0 = 6 \<and> ?r ! 1 = - 2 \<and> ?r ! 2 = - 2 \<and> ?r ! 3 = - 2 \<and> ?r ! 4 = 0
     \<and> ?r' ! 0 = 6 \<and> ?r' ! 1 = - 2 \<and> ?r' ! 2 = - 2 \<and> ?r' ! 3 = - 2 \<and> ?r' ! 4 = 0"
    using th sc by simp
  have "xs = [xs ! 0, xs ! 1, xs ! 2, xs ! 3, xs ! 4]" if "length xs = 5" for xs :: "rat list"
    using that by (auto simp: list_eq_iff_nth_eq less_Suc_eq numeral_eq_Suc)
  from this [OF l(1)] this [OF l(2)] e show ?thesis
    by metis
qed

subsection \<open>The carry\<close>

lemma holeStep_carry:
  "snd (holeStep st aidx hole c) =
     (case outcome aidx hole of
        Settled \<Rightarrow> 0
      | Tie \<Rightarrow> (if carryOver st then c + 1 else c)
      | Void \<Rightarrow> c
      | Degenerate \<Rightarrow> c)"
  by (simp add: holeStep_def outcome_def soloHole_def teamHole_def Let_def)

lemma holeStep_p0_carry:
  "snd (holeStep_p0 st aidx hole c) =
     (case outcome_p0 aidx hole of
        Settled \<Rightarrow> 0
      | Tie \<Rightarrow> (if carryOver st then c + 1 else c)
      | Void \<Rightarrow> c
      | Degenerate \<Rightarrow> c)"
proof -
  have "length (if js_lt b1 b2 then t1 else t2) = 0 \<or> length (if js_lt b1 b2 then t2 else t1) = 0
      \<longleftrightarrow> t1 = [] \<or> t2 = []" for b1 b2 and t1 t2 :: "nat list"
    by auto
  then show ?thesis
    by (auto simp: holeStep_p0_def outcome_p0_def soloHole_p0_def teamHole_p0_def Let_def)
qed

lemma holesLoop_take:
  "i < length holes \<Longrightarrow>
   fst (holesLoop st aidx holes c) ! i =
     fst (holeStep st aidx (holes ! i) (snd (holesLoop st aidx (take i holes) c)))
   \<and> snd (holesLoop st aidx (take (Suc i) holes) c) =
     snd (holeStep st aidx (holes ! i) (snd (holesLoop st aidx (take i holes) c)))"
proof (induction holes arbitrary: i c)
  case Nil
  then show ?case by simp
next
  case (Cons h hs)
  show ?case
  proof (cases i)
    case 0
    then show ?thesis by (simp add: holesLoop_Cons del: holesLoop.simps(2))
  next
    case (Suc j)
    then have "j < length hs" using Cons.prems by simp
    from Cons.IH [OF this] show ?thesis
      using Suc by (simp add: holesLoop_Cons del: holesLoop.simps(2))
  qed
qed

lemma holesLoop_p0_take:
  "i < length holes \<Longrightarrow>
   fst (holesLoop_p0 st aidx holes c) ! i =
     fst (holeStep_p0 st aidx (holes ! i) (snd (holesLoop_p0 st aidx (take i holes) c)))
   \<and> snd (holesLoop_p0 st aidx (take (Suc i) holes) c) =
     snd (holeStep_p0 st aidx (holes ! i) (snd (holesLoop_p0 st aidx (take i holes) c)))"
proof (induction holes arbitrary: i c)
  case Nil
  then show ?case by simp
next
  case (Cons h hs)
  show ?case
  proof (cases i)
    case 0
    then show ?thesis by (simp add: holesLoop_p0_Cons del: holesLoop_p0.simps(2))
  next
    case (Suc j)
    then have "j < length hs" using Cons.prems by simp
    from Cons.IH [OF this] show ?thesis
      using Suc by (simp add: holesLoop_p0_Cons del: holesLoop_p0.simps(2))
  qed
qed

text \<open>
  C5, as the code has it. The carry is 0 before the first hole. An iteration that ends
  in a tie adds 1 to it when carry-over is enabled and leaves it as it is otherwise; a
  void or degenerate iteration leaves it unchanged; a settled iteration resets it to 0.
  The row of hole i and the carry after hole i depend on the earlier holes through the
  carry before hole i only; in both versions.
\<close>

theorem C5_carry:
  "deltas (computeDeltas holes st playersAll) = fst (holesLoop st (activeIndices playersAll) holes 0)
   \<and> fst (computeDeltas_p0 holes st playersAll) = fst (holesLoop_p0 st (activeIndices_p0 playersAll) holes 0)
   \<and> snd (holesLoop st aidx (take 0 holes) 0) = 0
   \<and> snd (holesLoop_p0 st aidx (take 0 holes) 0) = 0
   \<and> snd (holeStep st aidx hole c) =
        (case outcome aidx hole of
           Settled \<Rightarrow> 0
         | Tie \<Rightarrow> (if carryOver st then c + 1 else c)
         | Void \<Rightarrow> c
         | Degenerate \<Rightarrow> c)
   \<and> snd (holeStep_p0 st aidx hole c) =
        (case outcome_p0 aidx hole of
           Settled \<Rightarrow> 0
         | Tie \<Rightarrow> (if carryOver st then c + 1 else c)
         | Void \<Rightarrow> c
         | Degenerate \<Rightarrow> c)
   \<and> (i < length holes \<longrightarrow>
        fst (holesLoop st aidx holes 0) ! i =
          fst (holeStep st aidx (holes ! i) (snd (holesLoop st aidx (take i holes) 0)))
        \<and> snd (holesLoop st aidx (take (Suc i) holes) 0) =
          snd (holeStep st aidx (holes ! i) (snd (holesLoop st aidx (take i holes) 0)))
        \<and> fst (holesLoop_p0 st aidx holes 0) ! i =
          fst (holeStep_p0 st aidx (holes ! i) (snd (holesLoop_p0 st aidx (take i holes) 0)))
        \<and> snd (holesLoop_p0 st aidx (take (Suc i) holes) 0) =
          snd (holeStep_p0 st aidx (holes ! i) (snd (holesLoop_p0 st aidx (take i holes) 0))))"
proof -
  have 1: "deltas (computeDeltas holes st playersAll) = fst (holesLoop st (activeIndices playersAll) holes 0)"
    by (simp add: computeDeltas_def Let_def)
  have 2: "fst (computeDeltas_p0 holes st playersAll) = fst (holesLoop_p0 st (activeIndices_p0 playersAll) holes 0)"
    by (simp add: computeDeltas_p0_def Let_def)
  have 3: "snd (holesLoop st aidx (take 0 holes) 0) = 0" "snd (holesLoop_p0 st aidx (take 0 holes) 0) = 0"
    by simp_all
  show ?thesis
    using 1 2 3 holeStep_carry [of st aidx hole c] holeStep_p0_carry [of st aidx hole c]
      holesLoop_take [of i holes st aidx 0] holesLoop_p0_take [of i holes st aidx 0]
    by blast
qed

theorem C5_carry_witness:
  "outcome [0, 1] \<lparr>par = Some (Fin 4), teamPicks = [T1, T2], scores = [Some (Fin 4), Some (Fin 4)]\<rparr> = Tie
   \<and> snd (holeStep \<lparr>wager = 1, carryOver = True, soloDouble = False, birdieDouble = False, eagleTriple = False\<rparr>
       [0, 1] \<lparr>par = Some (Fin 4), teamPicks = [T1, T2], scores = [Some (Fin 4), Some (Fin 4)]\<rparr> 0) = 1
   \<and> fst (holesLoop \<lparr>wager = 1, carryOver = True, soloDouble = False, birdieDouble = False, eagleTriple = False\<rparr>
       [0, 1]
       [\<lparr>par = Some (Fin 4), teamPicks = [T1, T2], scores = [Some (Fin 4), Some (Fin 4)]\<rparr>,
        \<lparr>par = Some (Fin 4), teamPicks = [T1, T2], scores = [Some (Fin 4), Some (Fin 5)]\<rparr>] 0) ! 1
     = fst (holeStep \<lparr>wager = 1, carryOver = True, soloDouble = False, birdieDouble = False, eagleTriple = False\<rparr>
       [0, 1] \<lparr>par = Some (Fin 4), teamPicks = [T1, T2], scores = [Some (Fin 4), Some (Fin 5)]\<rparr> 1)
   \<and> snd (holesLoop \<lparr>wager = 1, carryOver = True, soloDouble = False, birdieDouble = False, eagleTriple = False\<rparr>
       [0, 1]
       [\<lparr>par = Some (Fin 4), teamPicks = [T1, T2], scores = [Some (Fin 4), Some (Fin 4)]\<rparr>,
        \<lparr>par = Some (Fin 4), teamPicks = [T1, T2], scores = [Some (Fin 4), Some (Fin 5)]\<rparr>] 0) = 0"
proof -
  let ?s = "\<lparr>wager = 1, carryOver = True, soloDouble = False, birdieDouble = False, eagleTriple = False\<rparr>"
  let ?t = "\<lparr>par = Some (Fin 4), teamPicks = [T1, T2], scores = [Some (Fin 4), Some (Fin 4)]\<rparr>"
  let ?w = "\<lparr>par = Some (Fin 4), teamPicks = [T1, T2], scores = [Some (Fin 4), Some (Fin 5)]\<rparr>"
  have o: "outcome [0, 1] ?t = Tie" "outcome [0, 1] ?w = Settled"
    by code_simp+
  have a: "snd (holeStep ?s [0, 1] ?t 0) = 1"
    using C5_carry [where st = ?s and aidx = "[0, 1]" and hole = ?t and c = 0] o by simp
  have b: "fst (holesLoop ?s [0, 1] [?t, ?w] 0) ! 1 = fst (holeStep ?s [0, 1] ?w 1)
      \<and> snd (holesLoop ?s [0, 1] [?t, ?w] 0) = snd (holeStep ?s [0, 1] ?w 1)"
    using C5_carry [where st = ?s and aidx = "[0, 1]" and holes = "[?t, ?w]" and i = 1] a
    by (simp add: holesLoop_Cons del: holesLoop.simps(2))
  have c: "snd (holeStep ?s [0, 1] ?w 1) = 0"
    using C5_carry [where st = ?s and aidx = "[0, 1]" and hole = ?w and c = 1] o by simp
  from o a b c show ?thesis by simp
qed

theorem C5_carry_counterexample:
  "snd (holeStep \<lparr>wager = 1, carryOver = True, soloDouble = False, birdieDouble = False, eagleTriple = False\<rparr>
       [0, 1] \<lparr>par = Some (Fin 4), teamPicks = [T1, T1], scores = [None, None]\<rparr> 0) \<noteq> 0 + 1
   \<and> snd (holeStep_p0 \<lparr>wager = 1, carryOver = True, soloDouble = False, birdieDouble = False, eagleTriple = False\<rparr>
       [0, 1] \<lparr>par = Some (Fin 4), teamPicks = [T1, T1], scores = [None, None]\<rparr> 0) \<noteq> 0 + 1
   \<and> deltas (computeDeltas
       [\<lparr>par = Some (Fin 4), teamPicks = [T1, T1], scores = [None, None]\<rparr>,
        \<lparr>par = Some (Fin 4), teamPicks = [T1, T1], scores = [Some (Fin 4), Some (Fin 5)]\<rparr>]
       \<lparr>wager = 1, carryOver = True, soloDouble = False, birdieDouble = False, eagleTriple = False\<rparr>
       [''A'', ''B'']) = [[0, 0], [1, - 1]]
   \<and> fst (computeDeltas_p0
       [\<lparr>par = Some (Fin 4), teamPicks = [T1, T1], scores = [None, None]\<rparr>,
        \<lparr>par = Some (Fin 4), teamPicks = [T1, T1], scores = [Some (Fin 4), Some (Fin 5)]\<rparr>]
       \<lparr>wager = 1, carryOver = True, soloDouble = False, birdieDouble = False, eagleTriple = False\<rparr>
       [''A'', ''B'']) = [[0, 0], [1, - 1]]"
  by code_simp

subsection \<open>Void rounds\<close>

lemma teamBest_blank:
  "\<forall>aj \<in> set t. scoreAt hole (aidx ! aj) = None \<Longrightarrow> teamBest aidx hole t = PInf"
  unfolding teamBest_def by (induction t) simp_all

lemma mathMin_blank:
  "\<forall>aj \<in> set t. scoreAt hole (aidx ! aj) = None \<Longrightarrow> mathMin (scoresOf aidx hole t) = PInf"
  unfolding mathMin_def scoresOf_def by (induction t) simp_all

lemma soloHole_void:
  assumes "\<forall>aj \<in> set ps. scoreAt hole (aidx ! aj) = None"
  shows "soloHole st aidx hole c ps = (replicate (length aidx) 0, c)"
    and "soloHole_p0 st aidx hole c ps = (replicate (length aidx) 0, c)"
  using mathMin_blank [OF assms]
  by (simp_all add: soloHole_def soloHole_p0_def soloBest_mathMin Let_def)

lemma teamHole_void:
  assumes "(\<forall>aj \<in> set t1. scoreAt hole (aidx ! aj) = None) \<or> (\<forall>aj \<in> set t2. scoreAt hole (aidx ! aj) = None)"
  shows "teamHole st aidx hole c t1 t2 = (replicate (length aidx) 0, c)"
    and "teamHole_p0 st aidx hole c t1 t2 = (replicate (length aidx) 0, c)"
  using assms teamBest_blank [of t1 hole aidx] teamBest_blank [of t2 hole aidx]
    mathMin_blank [of t1 hole aidx] mathMin_blank [of t2 hole aidx]
  by (auto simp: teamHole_def teamHole_p0_def bestOfTeam_def Let_def)

text \<open>
  C6. A round in which exactly one group is populated and no member of it has a
  recorded value, or in which both groups are populated and no member of one of them
  has a recorded value, gives a row of zeros and leaves the carry as it was; in both
  versions.
\<close>

theorem C6_void:
  "(let t1 = teamOf T1 aidx hole; t2 = teamOf T2 aidx hole;
        participants = (if t1 \<noteq> [] then t1 else t2);
        blank = (\<lambda>t. \<forall>aj \<in> set t. scoreAt hole (aidx ! aj) = None)
    in ((t1 = [] \<or> t2 = []) \<and> participants \<noteq> [] \<and> blank participants)
       \<or> (t1 \<noteq> [] \<and> t2 \<noteq> [] \<and> (blank t1 \<or> blank t2)) \<longrightarrow>
       holeStep st aidx hole c = (replicate (length aidx) 0, c)
       \<and> holeStep_p0 st aidx hole c = (replicate (length aidx) 0, c))"
proof -
  define t1 where "t1 = teamOf T1 aidx hole"
  define t2 where "t2 = teamOf T2 aidx hole"
  define ps where "ps = (if t1 \<noteq> [] then t1 else t2)"
  have A: "holeStep st aidx hole c = (replicate (length aidx) 0, c)
       \<and> holeStep_p0 st aidx hole c = (replicate (length aidx) 0, c)"
    if "t1 = [] \<or> t2 = []" "ps \<noteq> []" "\<forall>aj \<in> set ps. scoreAt hole (aidx ! aj) = None"
    using holeStep_solo [of aidx hole ps st c] soloHole_void [OF that(3), of st c] that(1,2)
    unfolding ps_def t1_def t2_def by simp
  have B: "holeStep st aidx hole c = (replicate (length aidx) 0, c)
       \<and> holeStep_p0 st aidx hole c = (replicate (length aidx) 0, c)"
    if "t1 \<noteq> []" "t2 \<noteq> []"
      "(\<forall>aj \<in> set t1. scoreAt hole (aidx ! aj) = None) \<or> (\<forall>aj \<in> set t2. scoreAt hole (aidx ! aj) = None)"
    using holeStep_team [of aidx hole st c] holeStep_p0_team [of aidx hole st c]
      teamHole_void [OF that(3), of st c] that(1,2)
    unfolding t1_def t2_def by simp
  from A B show ?thesis
    unfolding Let_def ps_def t1_def t2_def by blast
qed

theorem C6_void_witness:
  "holeStep \<lparr>wager = 1, carryOver = True, soloDouble = False, birdieDouble = False, eagleTriple = False\<rparr>
     [0, 1, 2]
     \<lparr>par = Some (Fin 4), teamPicks = [T1, T2, T2], scores = [Some (Fin 4), None, None]\<rparr> 3
     = ([0, 0, 0], 3)
   \<and> holeStep_p0 \<lparr>wager = 1, carryOver = True, soloDouble = False, birdieDouble = False, eagleTriple = False\<rparr>
     [0, 1, 2]
     \<lparr>par = Some (Fin 4), teamPicks = [T1, T2, T2], scores = [Some (Fin 4), None, None]\<rparr> 3
     = ([0, 0, 0], 3)
   \<and> holeStep \<lparr>wager = 1, carryOver = True, soloDouble = False, birdieDouble = False, eagleTriple = False\<rparr>
     [0, 1, 2]
     \<lparr>par = Some (Fin 4), teamPicks = [Sit, T2, T2], scores = [Some (Fin 4), None, None]\<rparr> 3
     = ([0, 0, 0], 3)
   \<and> holeStep_p0 \<lparr>wager = 1, carryOver = True, soloDouble = False, birdieDouble = False, eagleTriple = False\<rparr>
     [0, 1, 2]
     \<lparr>par = Some (Fin 4), teamPicks = [Sit, T2, T2], scores = [Some (Fin 4), None, None]\<rparr> 3
     = ([0, 0, 0], 3)"
proof -
  let ?s = "\<lparr>wager = 1, carryOver = True, soloDouble = False, birdieDouble = False, eagleTriple = False\<rparr>"
  let ?h = "\<lparr>par = Some (Fin 4), teamPicks = [T1, T2, T2], scores = [Some (Fin 4), None, None]\<rparr>"
  let ?g = "\<lparr>par = Some (Fin 4), teamPicks = [Sit, T2, T2], scores = [Some (Fin 4), None, None]\<rparr>"
  let ?a = "[0, 1, 2 :: nat]"
  have t: "teamOf T1 ?a ?h = [0]" "teamOf T2 ?a ?h = [1, 2]" "teamOf T1 ?a ?g = []" "teamOf T2 ?a ?g = [1, 2]"
    by code_simp+
  have sc: "scoreAt ?h (?a ! 1) = None" "scoreAt ?h (?a ! 2) = None"
    "scoreAt ?g (?a ! 1) = None" "scoreAt ?g (?a ! 2) = None"
    by code_simp+
  note th1 = C6_void [where aidx = ?a and hole = ?h and st = ?s and c = 3, unfolded Let_def t]
  note th2 = C6_void [where aidx = ?a and hole = ?g and st = ?s and c = 3, unfolded Let_def t]
  have r: "replicate (length ?a) (0::rat) = [0, 0, 0]"
    by code_simp
  show ?thesis
    using th1 th2 sc unfolding r by simp
qed

subsection \<open>The target\<close>

lemma holePar_cases:
  "holePar hole = (case par hole of Some (Fin p) \<Rightarrow> if 3 \<le> p then Fin p else Fin 4 | _ \<Rightarrow> Fin 4)"
  by (simp add: holePar_def split: option.splits jsnum.splits)

lemma holePar_p0_cases:
  "holePar_p0 hole =
     (case par hole of
        None \<Rightarrow> Fin 4
      | Some (Fin p) \<Rightarrow> if p = 0 then Fin 4 else Fin p
      | Some NaN \<Rightarrow> Fin 4
      | Some v \<Rightarrow> v)"
  by (simp add: holePar_p0_def split: option.splits jsnum.splits)

lemma holeStep_par_cong:
  assumes p: "holePar hole = holePar hole'"
    and t: "teamPicks hole = teamPicks hole'" and s: "scores hole = scores hole'"
  shows "holeStep st aidx hole c = holeStep st aidx hole' c"
proof -
  have 1: "teamOf t aidx hole = teamOf t aidx hole'" for t
    using t by (simp add: teamOf_def pickAt_def)
  have 2: "scoreAt hole = scoreAt hole'"
    using s by (simp add: scoreAt_def fun_eq_iff)
  have 3: "soloHole st aidx hole c ps = soloHole st aidx hole' c ps" for ps
    by (simp add: soloHole_def soloBest_def bestList_def Let_def 2 p)
  have 4: "teamHole st aidx hole c t1 t2 = teamHole st aidx hole' c t1 t2" for t1 t2
    by (simp add: teamHole_def teamBest_def Let_def 2 p)
  show ?thesis
    by (simp add: holeStep_def Let_def 1 3 4)
qed

lemma holeStep_p0_par_cong:
  assumes p: "holePar_p0 hole = holePar_p0 hole'"
    and t: "teamPicks hole = teamPicks hole'" and s: "scores hole = scores hole'"
  shows "holeStep_p0 st aidx hole c = holeStep_p0 st aidx hole' c"
proof -
  have 1: "teamOf t aidx hole = teamOf t aidx hole'" for t
    using t by (simp add: teamOf_def pickAt_def)
  have 2: "scoreAt hole = scoreAt hole'"
    using s by (simp add: scoreAt_def fun_eq_iff)
  have 3: "soloHole_p0 st aidx hole c ps = soloHole_p0 st aidx hole' c ps" for ps
    by (simp add: soloHole_p0_def scoresOf_def Let_def 2 p)
  have 4: "teamHole_p0 st aidx hole c t1 t2 = teamHole_p0 st aidx hole' c t1 t2" for t1 t2
    by (simp add: teamHole_p0_def bestOfTeam_def scoresOf_def Let_def 2 p)
  show ?thesis
    by (simp add: holeStep_p0_def Let_def 1 3 4)
qed

text \<open>
  C7, as the code has it. In App.tsx a par that is missing, or that is not a finite
  number of at least 3, is replaced by the target 4: the hole is then scored as the
  same hole with par 4; every finite par of at least 3, integer or not, is used as
  given. In part_000 a par that is missing, 0 or NaN is replaced by 4, and every other
  par, also one below 3, is used as given. Hence both versions use every par that is
  a finite number of at least 3 as given.
\<close>

theorem C7_target:
  "holePar hole = (case par hole of Some (Fin p) \<Rightarrow> if 3 \<le> p then Fin p else Fin 4 | _ \<Rightarrow> Fin 4)
   \<and> holePar_p0 hole =
       (case par hole of
          None \<Rightarrow> Fin 4
        | Some (Fin p) \<Rightarrow> if p = 0 then Fin 4 else Fin p
        | Some NaN \<Rightarrow> Fin 4
        | Some v \<Rightarrow> v)
   \<and> holeStep st aidx hole c = holeStep st aidx (hole\<lparr>par := Some (holePar hole)\<rparr>) c
   \<and> holeStep_p0 st aidx hole c = holeStep_p0 st aidx (hole\<lparr>par := Some (holePar_p0 hole)\<rparr>) c
   \<and> (par hole = Some (Fin q) \<longrightarrow> 3 \<le> q \<longrightarrow> holePar hole = Fin q \<and> holePar_p0 hole = Fin q)"
proof -
  have 1: "holePar (hole\<lparr>par := Some (holePar hole)\<rparr>) = holePar hole"
    by (simp add: holePar_def split: option.splits jsnum.splits)
  have 2: "holePar_p0 (hole\<lparr>par := Some (holePar_p0 hole)\<rparr>) = holePar_p0 hole"
    by (simp add: holePar_p0_def split: option.splits jsnum.splits)
  have 3: "holeStep st aidx hole c = holeStep st aidx (hole\<lparr>par := Some (holePar hole)\<rparr>) c"
    by (rule holeStep_par_cong) (simp_all add: 1)
  have 4: "holeStep_p0 st aidx hole c = holeStep_p0 st aidx (hole\<lparr>par := Some (holePar_p0 hole)\<rparr>) c"
    by (rule holeStep_p0_par_cong) (simp_all add: 2)
  have 5: "par hole = Some (Fin q) \<longrightarrow> 3 \<le> q \<longrightarrow> holePar hole = Fin q \<and> holePar_p0 hole = Fin q"
    by (auto simp: holePar_def holePar_p0_def)
  from holePar_cases holePar_p0_cases 3 4 5 show ?thesis by blast
qed

theorem C7_target_witness:
  "holePar \<lparr>par = Some (Fin 5), teamPicks = [T1, T2], scores = [Some (Fin 4), Some (Fin 5)]\<rparr> = Fin 5
   \<and> holePar_p0 \<lparr>par = Some (Fin 5), teamPicks = [T1, T2], scores = [Some (Fin 4), Some (Fin 5)]\<rparr> = Fin 5
   \<and> holePar \<lparr>par = None, teamPicks = [T1, T2], scores = [Some (Fin 4), Some (Fin 5)]\<rparr> = Fin 4
   \<and> holePar \<lparr>par = Some (Fin 2), teamPicks = [T1, T2], scores = [Some (Fin 4), Some (Fin 5)]\<rparr> = Fin 4
   \<and> holePar_p0 \<lparr>par = Some (Fin 0), teamPicks = [T1, T2], scores = [Some (Fin 4), Some (Fin 5)]\<rparr> = Fin 4"
proof -
  have a: "(3::rat) \<le> 5" by simp
  show ?thesis
    using C7_target [where hole = "\<lparr>par = Some (Fin 5), teamPicks = [T1, T2], scores = [Some (Fin 4), Some (Fin 5)]\<rparr>"
        and q = 5]
      C7_target [where hole = "\<lparr>par = None, teamPicks = [T1, T2], scores = [Some (Fin 4), Some (Fin 5)]\<rparr>"]
      C7_target [where hole = "\<lparr>par = Some (Fin 2), teamPicks = [T1, T2], scores = [Some (Fin 4), Some (Fin 5)]\<rparr>"]
      C7_target [where hole = "\<lparr>par = Some (Fin 0), teamPicks = [T1, T2], scores = [Some (Fin 4), Some (Fin 5)]\<rparr>"]
      a
    by simp
qed

theorem C7_target_counterexample:
  "holePar_p0 \<lparr>par = Some (Fin 2), teamPicks = [T1, T2], scores = [Some (Fin 3), Some (Fin 5)]\<rparr> = Fin 2
   \<and> fst (computeDeltas_p0
       [\<lparr>par = Some (Fin 2), teamPicks = [T1, T2], scores = [Some (Fin 3), Some (Fin 5)]\<rparr>]
       \<lparr>wager = 1, carryOver = False, soloDouble = False, birdieDouble = True, eagleTriple = True\<rparr>
       [''A'', ''B'']) = [[1, - 1]]
   \<and> fst (computeDeltas_p0
       [\<lparr>par = Some (Fin 4), teamPicks = [T1, T2], scores = [Some (Fin 3), Some (Fin 5)]\<rparr>]
       \<lparr>wager = 1, carryOver = False, soloDouble = False, birdieDouble = True, eagleTriple = True\<rparr>
       [''A'', ''B'']) = [[2, - 2]]
   \<and> holePar \<lparr>par = Some (Fin (7 / 2)), teamPicks = [T1, T2], scores = [Some (Fin 3), Some (Fin 5)]\<rparr> = Fin (7 / 2)
   \<and> deltas (computeDeltas
       [\<lparr>par = Some (Fin (7 / 2)), teamPicks = [T1, T2], scores = [Some (Fin 3), Some (Fin 5)]\<rparr>]
       \<lparr>wager = 1, carryOver = False, soloDouble = False, birdieDouble = True, eagleTriple = True\<rparr>
       [''A'', ''B'']) = [[1, - 1]]
   \<and> deltas (computeDeltas
       [\<lparr>par = Some (Fin 4), teamPicks = [T1, T2], scores = [Some (Fin 3), Some (Fin 5)]\<rparr>]
       \<lparr>wager = 1, carryOver = False, soloDouble = False, birdieDouble = True, eagleTriple = True\<rparr>
       [''A'', ''B'']) = [[2, - 2]]"
  by code_simp

subsection \<open>Scaling a row\<close>

lemma map_scale_bump: "map ((*) k) (bump i d row) = bump i (k * d) (map ((*) k) row)"
proof (cases "i < length row")
  case True
  then show ?thesis by (simp add: bump_def map_update algebra_simps)
next
  case False
  then have "length row \<le> i" "length (map ((*) k) row) \<le> i" by simp_all
  then show ?thesis unfolding bump_def by (simp only: list_update_beyond)
qed

lemma map_scale_fold_bump:
  "map ((*) k) (fold (\<lambda>aj. bump aj d) xs row) = fold (\<lambda>aj. bump aj (k * d)) xs (map ((*) k) row)"
  by (induction xs arbitrary: row) (simp_all add: map_scale_bump)

lemma map_scale_zero [simp]: "map ((*) k) (replicate n (0::rat)) = replicate n 0"
  by simp

lemma stakeForScore_soloDouble [simp]:
  "stakeForScore (st\<lparr>soloDouble := x\<rparr>) c p wb = stakeForScore st c p wb"
  by (simp add: stakeForScore_def Let_def)

lemma payTeam_soloDouble:
  "payTeam (st\<lparr>soloDouble := True\<rparr>) s ws ls (replicate n 0) =
     (if length ws = 1 \<and> length ls \<ge> 2
      then map ((*) 2) (payTeam (st\<lparr>soloDouble := False\<rparr>) s ws ls (replicate n 0))
      else payTeam (st\<lparr>soloDouble := False\<rparr>) s ws ls (replicate n 0))"
  by (simp add: payTeam_def Let_def map_scale_fold_bump algebra_simps)

text \<open>
  C8. In a two-sided, decisively settled round of App.tsx with W winners and L losers,
  the row with the soloDouble option enabled is twice the row with the option disabled
  when W = 1 and L >= 2, and is the same row in every other case. With the option
  disabled a winner gets the gain and a loser pays the loss of the uneven split; with
  the option enabled they get and pay twice that exactly when W = 1 and L >= 2.
\<close>

theorem C8_soloDouble:
  "(let t1 = teamOf T1 aidx hole; t2 = teamOf T2 aidx hole;
        winners = (if b1 < b2 then t1 else t2); losers = (if b1 < b2 then t2 else t1);
        W = length winners; L = length losers;
        row_on = fst (holeStep (st\<lparr>soloDouble := True\<rparr>) aidx hole c);
        row_off = fst (holeStep (st\<lparr>soloDouble := False\<rparr>) aidx hole c);
        stake = stakeForScore st c (holePar hole) (Fin (min b1 b2));
        perWinnerGain = (if W \<ge> L then stake else stake * (of_nat L / of_nat W));
        perLoserLoss = (if W > L then stake * (of_nat W / of_nat L) else stake)
    in teamBest aidx hole t1 = Fin b1 \<longrightarrow> teamBest aidx hole t2 = Fin b2 \<longrightarrow> b1 \<noteq> b2 \<longrightarrow>
       row_on = (if W = 1 \<and> L \<ge> 2 then map ((*) 2) row_off else row_off)
       \<and> (\<forall>aj \<in> set winners. row_off ! aj = perWinnerGain
             \<and> row_on ! aj = (if W = 1 \<and> L \<ge> 2 then 2 * perWinnerGain else perWinnerGain))
       \<and> (\<forall>aj \<in> set losers. row_off ! aj = - perLoserLoss
             \<and> row_on ! aj = (if W = 1 \<and> L \<ge> 2 then - (2 * perLoserLoss) else - perLoserLoss)))"
proof -
  define t1 where "t1 = teamOf T1 aidx hole"
  define t2 where "t2 = teamOf T2 aidx hole"
  define ws where "ws = (if b1 < b2 then t1 else t2)"
  define ls where "ls = (if b1 < b2 then t2 else t1)"
  define s where "s = stakeForScore st c (holePar hole) (Fin (min b1 b2))"
  define on where "on = fst (holeStep (st\<lparr>soloDouble := True\<rparr>) aidx hole c)"
  define off where "off = fst (holeStep (st\<lparr>soloDouble := False\<rparr>) aidx hole c)"
  note wf = teams_wf [of aidx hole, folded t1_def t2_def]
  have main: "on = (if length ws = 1 \<and> length ls \<ge> 2 then map ((*) 2) off else off)
       \<and> (\<forall>aj \<in> set ws. off ! aj = (if length ws \<ge> length ls then s else s * (of_nat (length ls) / of_nat (length ws)))
             \<and> on ! aj = (if length ws = 1 \<and> length ls \<ge> 2
                  then 2 * (if length ws \<ge> length ls then s else s * (of_nat (length ls) / of_nat (length ws)))
                  else (if length ws \<ge> length ls then s else s * (of_nat (length ls) / of_nat (length ws)))))
       \<and> (\<forall>aj \<in> set ls. off ! aj = - (if length ws > length ls then s * (of_nat (length ws) / of_nat (length ls)) else s)
             \<and> on ! aj = (if length ws = 1 \<and> length ls \<ge> 2
                  then - (2 * (if length ws > length ls then s * (of_nat (length ws) / of_nat (length ls)) else s))
                  else - (if length ws > length ls then s * (of_nat (length ws) / of_nat (length ls)) else s)))"
    if b: "teamBest aidx hole t1 = Fin b1" "teamBest aidx hole t2 = Fin b2" "b1 \<noteq> b2"
  proof -
    have ne: "t1 \<noteq> []" "t2 \<noteq> []" using b by auto
    have h: "holeStep st' aidx hole c = teamHole st' aidx hole c t1 t2" for st'
      using ne holeStep_team unfolding t1_def t2_def by simp
    have p: "fst (teamHole (st\<lparr>soloDouble := x\<rparr>) aidx hole c t1 t2) =
        payTeam (st\<lparr>soloDouble := x\<rparr>) s ws ls (replicate (length aidx) 0)" for x
      using teamHole_settled [OF b, of "st\<lparr>soloDouble := x\<rparr>" c]
      by (simp add: ws_def ls_def s_def)
    have 1: "on = (if length ws = 1 \<and> length ls \<ge> 2 then map ((*) 2) off else off)"
      unfolding on_def off_def h p by (rule payTeam_soloDouble)
    have s': "s = stakeForScore (st\<lparr>soloDouble := False\<rparr>) c (holePar hole) (Fin (min b1 b2))"
      by (simp add: s_def)
    have e: "(\<forall>aj \<in> set ws. off ! aj = (if length ws \<ge> length ls then s else s * (of_nat (length ls) / of_nat (length ws))))
       \<and> (\<forall>aj \<in> set ls. off ! aj = - (if length ws > length ls then s * (of_nat (length ws) / of_nat (length ls)) else s))"
      unfolding off_def h
      by (rule teamHole_entries [OF wf b ws_def ls_def _ s']) simp
    have l: "length off = length aidx"
      unfolding off_def using holeStep_row by blast
    have r: "\<forall>aj \<in> set ws \<union> set ls. aj < length off"
      using wf(4,5) l by (auto simp: ws_def ls_def)
    have 2: "\<forall>aj \<in> set ws \<union> set ls. on ! aj = (if length ws = 1 \<and> length ls \<ge> 2 then 2 * off ! aj else off ! aj)"
    proof (cases "length ws = 1 \<and> length ls \<ge> 2")
      case True
      then have "on = map ((*) 2) off" using 1 by auto
      then show ?thesis using r True by auto
    next
      case False
      then have "on = off" using 1 by auto
      then show ?thesis using False by auto
    qed
    show ?thesis
      using 1 2 e by auto
  qed
  show ?thesis
    using main
    unfolding Let_def on_def off_def s_def ws_def ls_def t1_def t2_def
    by blast
qed

theorem C8_soloDouble_witness:
  "fst (holeStep \<lparr>wager = 1, carryOver = False, soloDouble = True, birdieDouble = False, eagleTriple = False\<rparr>
     [0, 1, 2]
     \<lparr>par = Some (Fin 4), teamPicks = [T1, T2, T2], scores = [Some (Fin 3), Some (Fin 4), Some (Fin 5)]\<rparr> 0)
   = map ((*) 2)
      (fst (holeStep \<lparr>wager = 1, carryOver = False, soloDouble = False, birdieDouble = False, eagleTriple = False\<rparr>
       [0, 1, 2]
       \<lparr>par = Some (Fin 4), teamPicks = [T1, T2, T2], scores = [Some (Fin 3), Some (Fin 4), Some (Fin 5)]\<rparr> 0))
   \<and> fst (holeStep \<lparr>wager = 1, carryOver = False, soloDouble = True, birdieDouble = False, eagleTriple = False\<rparr>
     [0, 1, 2]
     \<lparr>par = Some (Fin 4), teamPicks = [T1, T2, T2], scores = [Some (Fin 3), Some (Fin 4), Some (Fin 5)]\<rparr> 0)
   = [4, - 2, - 2]
   \<and> fst (holeStep \<lparr>wager = 1, carryOver = False, soloDouble = True, birdieDouble = False, eagleTriple = False\<rparr>
     [0, 1, 2, 3, 4]
     \<lparr>par = Some (Fin 4), teamPicks = [T1, T1, T2, T2, T2],
      scores = [Some (Fin 4), Some (Fin 5), Some (Fin 5), Some (Fin 5), Some (Fin 5)]\<rparr> 0)
   = fst (holeStep \<lparr>wager = 1, carryOver = False, soloDouble = False, birdieDouble = False, eagleTriple = False\<rparr>
     [0, 1, 2, 3, 4]
     \<lparr>par = Some (Fin 4), teamPicks = [T1, T1, T2, T2, T2],
      scores = [Some (Fin 4), Some (Fin 5), Some (Fin 5), Some (Fin 5), Some (Fin 5)]\<rparr> 0)
   \<and> fst (holeStep \<lparr>wager = 1, carryOver = False, soloDouble = True, birdieDouble = False, eagleTriple = False\<rparr>
     [0, 1, 2, 3, 4]
     \<lparr>par = Some (Fin 4), teamPicks = [T1, T1, T2, T2, T2],
      scores = [Some (Fin 4), Some (Fin 5), Some (Fin 5), Some (Fin 5), Some (Fin 5)]\<rparr> 0)
   = [3 / 2, 3 / 2, - 1, - 1, - 1]"
proof -
  let ?s = "\<lparr>wager = 1, carryOver = False, soloDouble = True, birdieDouble = False, eagleTriple = False\<rparr>"
  let ?h = "\<lparr>par = Some (Fin 4), teamPicks = [T1, T2, T2], scores = [Some (Fin 3), Some (Fin 4), Some (Fin 5)]\<rparr>"
  let ?g = "\<lparr>par = Some (Fin 4), teamPicks = [T1, T1, T2, T2, T2],
      scores = [Some (Fin 4), Some (Fin 5), Some (Fin 5), Some (Fin 5), Some (Fin 5)]\<rparr>"
  let ?a = "[0, 1, 2 :: nat]" and ?b = "[0, 1, 2, 3, 4 :: nat]"
  have t: "teamOf T1 ?a ?h = [0]" "teamOf T2 ?a ?h = [1, 2]"
    "teamOf T1 ?b ?g = [0, 1]" "teamOf T2 ?b ?g = [2, 3, 4]"
    by code_simp+
  have b: "teamBest ?a ?h [0] = Fin 3" "teamBest ?a ?h [1, 2] = Fin 4"
    "teamBest ?b ?g [0, 1] = Fin 4" "teamBest ?b ?g [2, 3, 4] = Fin 5"
    by code_simp+
  have v: "fst (holeStep ?s ?a ?h 0) = [4, - 2, - 2]"
    "fst (holeStep ?s ?b ?g 0) = [3 / 2, 3 / 2, - 1, - 1, - 1]"
    by code_simp+
  note th1 = C8_soloDouble [where aidx = ?a and hole = ?h and ?b1.0 = 3 and ?b2.0 = 4 and st = ?s and c = 0,
      unfolded Let_def t b]
  note th2 = C8_soloDouble [where aidx = ?b and hole = ?g and ?b1.0 = 4 and ?b2.0 = 5 and st = ?s and c = 0,
      unfolded Let_def t b]
  show ?thesis
    using th1 th2 v by simp
qed

subsection \<open>Linearity in the wager\<close>


lemma payTeam_wager [simp]: "payTeam (st\<lparr>wager := w\<rparr>) = payTeam st"
  by (simp add: payTeam_def fun_eq_iff)














lemma length_holesLoop [simp]:
  "length (fst (holesLoop st aidx holes c)) = length holes"
  "length (fst (holesLoop_p0 st aidx holes c)) = length holes"
  by (induction holes arbitrary: c) (simp_all add: holesLoop_Cons holesLoop_p0_Cons del: holesLoop.simps(2) holesLoop_p0.simps(2))




subsection \<open>The two versions\<close>

lemma trim_Nil [simp]: "trim [] = []"
  by (simp add: trim_def)
















subsection \<open>Rounding to a double\<close>

lemma pow2_pos [simp]: "0 < (2::rat) powi k"
  by simp

lemma pow2_less_iff: "(2::rat) powi a < 2 powi b \<longleftrightarrow> a < b"
proof
  assume l: "(2::rat) powi a < 2 powi b"
  show "a < b"
  proof (rule ccontr)
    assume "\<not> a < b"
    then have "(2::rat) powi b \<le> 2 powi a"
      by (intro power_int_increasing) simp_all
    then show False using l by simp
  qed
next
  assume "a < b"
  then show "(2::rat) powi a < 2 powi b"
    by (intro power_int_strict_increasing) simp_all
qed

lemma pow2_le_iff: "(2::rat) powi a \<le> 2 powi b \<longleftrightarrow> a \<le> b"
  using pow2_less_iff [of b a] by (auto simp: not_less [symmetric])

lemma ilog2_bounds:
  assumes "0 < x"
  shows "2 powi ilog2 x \<le> x \<and> x < 2 powi (ilog2 x + 1)"
proof -
  obtain a b where q: "quotient_of x = (a, b)" by (cases "quotient_of x")
  then have b: "0 < b" and x: "x = of_int a / of_int b"
    using quotient_of_denom_pos quotient_of_div by blast+
  have a: "0 < a" using assms b x by (simp add: zero_less_divide_iff)
  define la where "la = floorlog 2 (nat a)"
  define lb where "lb = floorlog 2 (nat b)"
  define d where "d = int la - int lb"
  have "2 ^ (la - 1) \<le> nat a \<and> nat a < 2 ^ la" "2 ^ (lb - 1) \<le> nat b \<and> nat b < 2 ^ lb"
    unfolding la_def lb_def using a b by (intro floorlog_bounds; simp)+
  then have A: "(2::rat) ^ (la - 1) \<le> of_int a" "of_int a < (2::rat) ^ la"
    and B: "(2::rat) ^ (lb - 1) \<le> of_int b" "of_int b < (2::rat) ^ lb"
    using a b
    by (metis (mono_tags) of_nat_le_iff of_nat_less_iff of_nat_nat of_nat_numeral of_nat_power
        less_imp_le of_int_of_nat_eq)+
  have la: "0 < la" and lb: "0 < lb"
    unfolding la_def lb_def using a b floorlog_eq_zero_iff [of 2 "nat a"] floorlog_eq_zero_iff [of 2 "nat b"]
    by auto
  have up: "x < 2 powi (d + 1)"
  proof -
    have "x < 2 ^ la / 2 ^ (lb - 1)"
      unfolding x using A B b a
      by (intro frac_less) simp_all
    also have "\<dots> = 2 powi (int la - int (lb - 1))"
      by (simp add: power_int_diff)
    also have "int la - int (lb - 1) = d + 1" using lb by (simp add: d_def)
    finally show ?thesis .
  qed
  have lo: "2 powi (d - 1) \<le> x"
  proof -
    have "2 powi (int (la - 1) - int lb) = (2::rat) ^ (la - 1) / 2 ^ lb"
      by (simp add: power_int_diff)
    also have "\<dots> \<le> x"
      unfolding x using A B b a
      by (intro frac_le) simp_all
    also have "int (la - 1) - int lb = d - 1" using la by (simp add: d_def)
    finally show ?thesis by simp
  qed
  have "ilog2 x = (if 2 powi d \<le> x then d else d - 1)"
    by (simp add: ilog2_def q la_def lb_def d_def Let_def)
  then show ?thesis using up lo by (auto simp: not_le intro: less_imp_le)
qed

lemma ilog2_unique:
  assumes "0 < x" "2 powi e \<le> x" "x < 2 powi (e + 1)"
  shows "ilog2 x = e"
proof -
  note b = ilog2_bounds [OF assms(1)]
  have "2 powi e < (2::rat) powi (ilog2 x + 1)" using assms(2) b by linarith
  moreover have "2 powi ilog2 x < (2::rat) powi (e + 1)" using assms(3) b by linarith
  ultimately show ?thesis by (simp add: pow2_less_iff)
qed

lemma roundHalfEven_int [simp]: "roundHalfEven (of_int n) = n"
  by (simp add: roundHalfEven_def)

lemma roundHalfEven_near:
  assumes "\<bar>q - of_int n\<bar> < 1 / 2"
  shows "roundHalfEven q = n"
proof -
  have q: "of_int n - 1 / 2 < q" "q < of_int n + 1 / 2"
    using assms by linarith+
  show ?thesis
  proof (cases "of_int n \<le> q")
    case True
    then have f: "\<lfloor>q\<rfloor> = n" using q by (simp add: floor_eq_iff)
    have "q - of_int n < 1 / 2" using q by linarith
    then show ?thesis unfolding roundHalfEven_def Let_def f by simp
  next
    case False
    then have f: "\<lfloor>q\<rfloor> = n - 1" using q by (simp add: floor_eq_iff)
    have "1 / 2 < q - of_int (n - 1)" using q by simp
    then show ?thesis unfolding roundHalfEven_def Let_def f by simp
  qed
qed

lemma roundHalfEven_tie:
  "roundHalfEven (of_int n + 1 / 2) = (if even n then n else n + 1)"
proof -
  have "\<lfloor>(of_int n + 1 / 2 :: rat)\<rfloor> = n"
    by (simp add: floor_eq_iff)
  then show ?thesis by (simp add: roundHalfEven_def)
qed

lemma roundHalfEven_error: "\<bar>of_int (roundHalfEven q) - q\<bar> \<le> 1 / 2"
proof -
  have "of_int \<lfloor>q\<rfloor> \<le> q" "q < of_int \<lfloor>q\<rfloor> + 1"
    by linarith+
  then show ?thesis
    by (auto simp: roundHalfEven_def Let_def abs_le_iff)
qed

lemma roundHalfEven_le:
  assumes "\<bar>q\<bar> \<le> of_int N"
  shows "\<bar>roundHalfEven q\<bar> \<le> N"
proof -
  have q: "- of_int N \<le> q" "q \<le> of_int N"
    using assms by linarith+
  have f: "- N \<le> \<lfloor>q\<rfloor>" "\<lfloor>q\<rfloor> \<le> N"
    using q by (simp_all add: le_floor_iff floor_le_iff)
  have lo: "\<lfloor>q\<rfloor> \<le> roundHalfEven q" and hi: "roundHalfEven q \<le> \<lfloor>q\<rfloor> + 1"
    by (simp_all add: roundHalfEven_def Let_def)
  have "roundHalfEven q \<le> N"
  proof (cases "\<lfloor>q\<rfloor> = N")
    case True
    then have "of_int N \<le> q" by (metis of_int_floor_le)
    then have "q = of_int N" using q by simp
    then show ?thesis by simp
  next
    case False
    then show ?thesis using f hi by linarith
  qed
  then show ?thesis using lo f by linarith
qed

lemma toDouble_zero [simp]: "toDouble 0 = Fin 0"
  by (simp add: toDouble_def)

lemma toDouble_cert:
  assumes x: "x \<noteq> 0" "2 powi e0 \<le> \<bar>x\<bar>" "\<bar>x\<bar> < 2 powi (e0 + 1)"
    and e: "e = max e0 (- 1022)"
    and r: "r = of_int (roundHalfEven (x / 2 powi (e - 52))) * 2 powi (e - 52)"
    and b: "\<bar>r\<bar> < 2 powi 1024"
  shows "toDouble x = Fin r"
proof -
  have "ilog2 \<bar>x\<bar> = e0"
    using x by (intro ilog2_unique) simp_all
  moreover have "\<not> 2 powi 1024 \<le> r" "\<not> r \<le> - (2 powi 1024)"
    using b by linarith+
  ultimately show ?thesis
    using x(1) e r by (simp add: toDouble_def Let_def)
qed

lemma toDouble_exact:
  assumes x: "x = of_int m * 2 powi k" and m: "\<bar>m\<bar> < 2 ^ 53" and k: "- 1074 \<le> k"
    and b: "\<bar>x\<bar> < 2 powi 1024"
  shows "toDouble x = Fin x"
proof (cases "x = 0")
  case True
  then show ?thesis by simp
next
  case False
  define e0 where "e0 = ilog2 \<bar>x\<bar>"
  define e where "e = max e0 (- 1022)"
  have pos: "0 < \<bar>x\<bar>" using False by simp
  note lb = ilog2_bounds [OF pos, folded e0_def]
  have "\<bar>x\<bar> = of_int \<bar>m\<bar> * 2 powi k"
    by (simp add: x abs_mult)
  also have "\<dots> < 2 ^ 53 * 2 powi k"
    using m by (intro mult_strict_right_mono) (simp_all add: of_int_less_iff [where 'a = rat, symmetric] del: of_int_less_iff)
  also have "\<dots> = 2 powi (53 + k)"
    by (simp add: power_int_add)
  finally have "2 powi e0 < (2::rat) powi (53 + k)" using lb by linarith
  then have "e0 < 53 + k" by (simp only: pow2_less_iff)
  then have "e0 - 52 \<le> k" by simp
  then have ek: "e - 52 \<le> k" using k by (simp add: e_def)
  define j where "j = nat (k - (e - 52))"
  have "k = (e - 52) + int j" using ek by (simp add: j_def)
  then have "(2::rat) powi k = 2 powi (e - 52) * 2 powi int j"
    by (metis power_int_add zero_neq_numeral)
  then have kj: "2 powi k = (2::rat) powi (e - 52) * 2 ^ j"
    by (simp only: power_int_of_nat)
  then have q: "x / 2 powi (e - 52) = of_int (m * 2 ^ j)"
    by (simp add: x)
  have r: "x = of_int (roundHalfEven (x / 2 powi (e - 52))) * 2 powi (e - 52)"
    unfolding q roundHalfEven_int by (simp add: x kj)
  show ?thesis
    using lb b by (intro toDouble_cert [OF False _ _ e_def r]) simp_all
qed

lemma pow2_split: "(2::rat) powi (e + 1) = 2 ^ 53 * 2 powi (e - 52)"
proof -
  have "e + 1 = int 53 + (e - 52)" by simp
  then have "(2::rat) powi (e + 1) = 2 powi (int 53 + (e - 52))" by (rule arg_cong)
  also have "\<dots> = 2 powi int 53 * 2 powi (e - 52)" by (rule power_int_add) simp
  also have "(2::rat) powi int 53 = 2 ^ 53" by (rule power_int_of_nat)
  finally show ?thesis .
qed

lemma toDouble_finite:
  assumes "\<bar>x\<bar> < 2 powi 1023"
  shows "isFinite (toDouble x)"
proof (cases "x = 0")
  case True
  then show ?thesis by simp
next
  case False
  define e0 where "e0 = ilog2 \<bar>x\<bar>"
  define e where "e = max e0 (- 1022)"
  define u where "u = (2::rat) powi (e - 52)"
  define r where "r = of_int (roundHalfEven (x / u)) * u"
  have pos: "0 < \<bar>x\<bar>" using False by simp
  note lb = ilog2_bounds [OF pos, folded e0_def]
  have u: "0 < u" by (simp add: u_def)
  have "2 powi e0 < (2::rat) powi 1023" using lb assms by linarith
  then have e0: "e0 < 1023" by (simp only: pow2_less_iff)
  then have e: "e \<le> 1022" "e0 \<le> e" by (simp_all add: e_def)
  have "\<bar>x\<bar> < 2 powi (e + 1)"
  proof -
    have "(2::rat) powi (e0 + 1) \<le> 2 powi (e + 1)" using e by (simp only: pow2_le_iff)
    then show ?thesis using lb by linarith
  qed
  also have "\<dots> = 2 ^ 53 * u"
    unfolding u_def by (rule pow2_split)
  finally have "\<bar>x / u\<bar> < 2 ^ 53"
    using u by (simp add: abs_divide pos_divide_less_eq)
  then have "\<bar>x / u\<bar> \<le> of_int (2 ^ 53)" by simp
  then have "\<bar>roundHalfEven (x / u)\<bar> \<le> 2 ^ 53" by (rule roundHalfEven_le)
  then have "\<bar>(of_int (roundHalfEven (x / u)) :: rat)\<bar> \<le> 2 ^ 53"
    by (metis of_int_abs of_int_le_iff of_int_numeral of_int_power)
  then have "\<bar>r\<bar> \<le> 2 ^ 53 * u"
    using u by (simp add: r_def abs_mult mult_right_mono)
  also have "\<dots> = 2 powi (e + 1)"
    unfolding u_def by (rule pow2_split [symmetric])
  also have "\<dots> < 2 powi 1024" using e by (simp only: pow2_less_iff)
  finally have "\<bar>r\<bar> < 2 powi 1024" .
  then have "toDouble x = Fin r"
    using lb by (intro toDouble_cert [OF False _ _ e_def]) (simp_all add: r_def u_def)
  then show ?thesis by simp
qed

lemma toDouble_near:
  assumes "2 powi e0 \<le> \<bar>x\<bar>" "\<bar>x\<bar> < 2 powi (e0 + 1)"
    and u: "u = 2 powi (max e0 (- 1022) - 52)"
    and n: "\<bar>x - of_int n * u\<bar> < u / 2"
    and r: "r = of_int n * u" "\<bar>r\<bar> < 2 powi 1024"
  shows "toDouble x = Fin r"
proof -
  have up: "0 < u" by (simp add: u)
  have "(0::rat) < 2 powi e0" by simp
  then have "0 < \<bar>x\<bar>" using assms(1) by linarith
  then have x: "x \<noteq> 0" by simp
  have "x / u - of_int n = (x - of_int n * u) / u"
    using up by (simp add: field_simps)
  then have "\<bar>x / u - of_int n\<bar> = \<bar>x - of_int n * u\<bar> / u"
    using up by (simp add: abs_divide)
  also have "\<dots> < 1 / 2" using n up by (simp add: field_simps)
  finally have "roundHalfEven (x / u) = n" by (rule roundHalfEven_near)
  then show ?thesis
    using r by (intro toDouble_cert [OF x assms(1,2) refl]) (simp_all add: u)
qed

lemma toDouble_tie:
  assumes "2 powi e0 \<le> \<bar>x\<bar>" "\<bar>x\<bar> < 2 powi (e0 + 1)"
    and u: "u = 2 powi (max e0 (- 1022) - 52)"
    and n: "x = (of_int n + 1 / 2) * u"
    and r: "r = of_int (if even n then n else n + 1) * u" "\<bar>r\<bar> < 2 powi 1024"
  shows "toDouble x = Fin r"
proof -
  have up: "0 < u" by (simp add: u)
  have "(0::rat) < 2 powi e0" by simp
  then have "0 < \<bar>x\<bar>" using assms(1) by linarith
  then have x: "x \<noteq> 0" by simp
  have "x / u = of_int n + 1 / 2" using up by (simp add: n)
  then have "roundHalfEven (x / u) = (if even n then n else n + 1)"
    by (simp only: roundHalfEven_tie)
  then show ?thesis
    using r by (intro toDouble_cert [OF x assms(1,2) refl]) (simp_all add: u)
qed

subsection \<open>The double-precision layer: control flow\<close>

lemma holeStep_d_carry:
  "snd (holeStep_d st aidx hole c) =
     (case outcome aidx hole of
        Settled \<Rightarrow> 0
      | Tie \<Rightarrow> (if carryOverD st then c + 1 else c)
      | Void \<Rightarrow> c
      | Degenerate \<Rightarrow> c)"
  by (simp add: holeStep_d_def outcome_def soloHole_d_def teamHole_d_def Let_def)

lemma holeStep_p0_d_carry:
  "snd (holeStep_p0_d st aidx hole c) =
     (case outcome_p0 aidx hole of
        Settled \<Rightarrow> 0
      | Tie \<Rightarrow> (if carryOverD st then c + 1 else c)
      | Void \<Rightarrow> c
      | Degenerate \<Rightarrow> c)"
proof -
  have "length (if js_lt b1 b2 then t1 else t2) = 0 \<or> length (if js_lt b1 b2 then t2 else t1) = 0
      \<longleftrightarrow> t1 = [] \<or> t2 = []" for b1 b2 and t1 t2 :: "nat list"
    by auto
  then show ?thesis
    by (auto simp: holeStep_p0_d_def outcome_p0_def soloHole_p0_d_def teamHole_p0_d_def Let_def)
qed

lemma holeStep_d_unsettled:
  "outcome aidx hole \<noteq> Settled \<Longrightarrow>
   fst (holeStep_d st aidx hole c) = replicate (length aidx) (Fin 0)"
  by (auto simp: holeStep_d_def outcome_def soloHole_d_def teamHole_d_def Let_def split: if_splits)

lemma holeStep_p0_d_unsettled:
  "outcome_p0 aidx hole \<noteq> Settled \<Longrightarrow>
   fst (holeStep_p0_d st aidx hole c) = replicate (length aidx) (Fin 0)"
  by (auto simp: holeStep_p0_d_def outcome_p0_def soloHole_p0_d_def teamHole_p0_d_def Let_def
      split: if_splits)

lemma holesLoop_d_Cons:
  "holesLoop_d st aidx (h # hs) c =
     (fst (holeStep_d st aidx h c) # fst (holesLoop_d st aidx hs (snd (holeStep_d st aidx h c))),
      snd (holesLoop_d st aidx hs (snd (holeStep_d st aidx h c))))"
  by (simp split: prod.splits)

lemma holesLoop_p0_d_Cons:
  "holesLoop_p0_d st aidx (h # hs) c =
     (fst (holeStep_p0_d st aidx h c) # fst (holesLoop_p0_d st aidx hs (snd (holeStep_p0_d st aidx h c))),
      snd (holesLoop_p0_d st aidx hs (snd (holeStep_p0_d st aidx h c))))"
  by (simp split: prod.splits)

lemma holesLoop_d_carry_wager:
  "snd (holesLoop_d (st\<lparr>wagerD := w\<rparr>) aidx holes c) = snd (holesLoop_d (st\<lparr>wagerD := w'\<rparr>) aidx holes c)"
proof (induction holes arbitrary: c)
  case Nil
  then show ?case by simp
next
  case (Cons h hs)
  have "snd (holeStep_d (st\<lparr>wagerD := w\<rparr>) aidx h c) = snd (holeStep_d (st\<lparr>wagerD := w'\<rparr>) aidx h c)"
    by (simp add: holeStep_d_carry)
  then show ?case
    unfolding holesLoop_d_Cons using Cons by simp
qed

lemma holesLoop_p0_d_carry_wager:
  "snd (holesLoop_p0_d (st\<lparr>wagerD := w\<rparr>) aidx holes c) = snd (holesLoop_p0_d (st\<lparr>wagerD := w'\<rparr>) aidx holes c)"
proof (induction holes arbitrary: c)
  case Nil
  then show ?case by simp
next
  case (Cons h hs)
  have "snd (holeStep_p0_d (st\<lparr>wagerD := w\<rparr>) aidx h c) = snd (holeStep_p0_d (st\<lparr>wagerD := w'\<rparr>) aidx h c)"
    by (simp add: holeStep_p0_d_carry)
  then show ?case
    unfolding holesLoop_p0_d_Cons using Cons by simp
qed

lemma holeStep_d_carry_le: "snd (holeStep_d st aidx hole c) \<le> c + 1"
  by (simp add: holeStep_d_carry split: Outcome.splits)

lemma holeStep_p0_d_carry_le: "snd (holeStep_p0_d st aidx hole c) \<le> c + 1"
  by (simp add: holeStep_p0_d_carry split: Outcome.splits)

subsection \<open>The double-precision layer: a wager of 0\<close>

lemma fl_zero [simp]:
  "fl_add (Fin 0) (Fin 0) = Fin 0" "fl_sub (Fin 0) (Fin 0) = Fin 0"
  "fl_mul (Fin 0) (Fin x) = Fin 0"
  by (simp_all add: fl_sub_def)

lemma small_finite:
  assumes "\<bar>x\<bar> < 2 ^ 33"
  shows "\<exists>r. toDouble x = Fin r"
proof -
  have "(2::rat) ^ 33 \<le> 2 powi 1023" by simp
  then have "isFinite (toDouble x)" using assms by (intro toDouble_finite) linarith
  then show ?thesis by (cases "toDouble x") simp_all
qed

lemma stake_zero:
  assumes "wagerD st = Fin 0" "c < 2 ^ 32"
  shows "stakeForScore_d st c p wb = Fin 0"
proof -
  have "(of_nat c :: rat) < of_nat (2 ^ 32)"
    using assms(2) by (simp only: of_nat_less_iff)
  then have "\<bar>1 + (of_nat c :: rat)\<bar> < 2 ^ 33"
    by simp
  then obtain u where "toDouble (1 + of_nat c) = Fin u" using small_finite by blast
  moreover obtain u' where "toDouble (1::rat) = Fin u'"
    using small_finite [of 1] by auto
  ultimately show ?thesis
    using assms(1) by (simp add: stakeForScore_d_def Let_def)
qed

lemma ratio_finite:
  assumes "L < 2 ^ 32" "W \<noteq> 0"
  shows "\<exists>r. fl_div (Fin (of_nat L)) (Fin (of_nat W)) = Fin r"
proof -
  have "(of_nat L :: rat) / of_nat W \<le> of_nat L"
    using assms(2) by (simp add: divide_le_eq mult_le_cancel_left1)
  moreover have "(of_nat L :: rat) < of_nat (2 ^ 32)"
    using assms(1) by (simp only: of_nat_less_iff)
  ultimately have "\<bar>(of_nat L :: rat) / of_nat W\<bar> < 2 ^ 33" by simp
  then show ?thesis using small_finite assms(2) by simp
qed

lemma addTo_zero [simp]: "addTo aj (Fin 0) (replicate n (Fin 0)) = replicate n (Fin 0)"
proof (cases "aj < n")
  case True
  then have "(replicate n (Fin 0 :: jsnum))[aj := Fin 0] = replicate n (Fin 0)"
    by (metis length_replicate list_update_id nth_replicate)
  then show ?thesis using True by (simp add: addTo_def)
next
  case False
  then have "length (replicate n (Fin 0 :: jsnum)) \<le> aj" by simp
  then show ?thesis unfolding addTo_def by (rule list_update_beyond)
qed

lemma subFrom_zero [simp]: "subFrom aj (Fin 0) (replicate n (Fin 0)) = replicate n (Fin 0)"
proof (cases "aj < n")
  case True
  then have "(replicate n (Fin 0 :: jsnum))[aj := Fin 0] = replicate n (Fin 0)"
    by (metis length_replicate list_update_id nth_replicate)
  then show ?thesis using True by (simp add: subFrom_def)
next
  case False
  then have "length (replicate n (Fin 0 :: jsnum)) \<le> aj" by simp
  then show ?thesis unfolding subFrom_def by (rule list_update_beyond)
qed

lemma fold_addTo_zero [simp]:
  "fold (\<lambda>aj. addTo aj (Fin 0)) xs (replicate n (Fin 0)) = replicate n (Fin 0)"
  by (induction xs) simp_all

lemma fold_subFrom_zero [simp]:
  "fold (\<lambda>aj. subFrom aj (Fin 0)) xs (replicate n (Fin 0)) = replicate n (Fin 0)"
  by (induction xs) simp_all

lemma paySolo_d_zero [simp]:
  "paySolo_d (Fin 0) w ps (replicate n (Fin 0)) = replicate n (Fin 0)"
  unfolding paySolo_d_def by (induction ps) simp_all

lemma payTeam_d_zero:
  assumes "length ws < 2 ^ 32" "length ls < 2 ^ 32" "ws \<noteq> []" "ls \<noteq> []"
  shows "payTeam_d st (Fin 0) ws ls (replicate n (Fin 0)) = replicate n (Fin 0)"
    and "payTeam_p0_d (Fin 0) ws ls (replicate n (Fin 0)) = replicate n (Fin 0)"
proof -
  obtain r where r: "fl_div (Fin (of_nat (length ls))) (Fin (of_nat (length ws))) = Fin r"
    using ratio_finite [OF assms(2), of "length ws"] assms(3) by auto
  obtain r' where r': "fl_div (Fin (of_nat (length ws))) (Fin (of_nat (length ls))) = Fin r'"
    using ratio_finite [OF assms(1), of "length ls"] assms(4) by auto
  have g: "(if length ls \<le> length ws then Fin 0 else fl_mul (Fin 0) (Fin r)) = Fin 0"
    "(if length ls < length ws then fl_mul (Fin 0) (Fin r') else Fin 0) = Fin 0"
    "fl_mul (Fin 0) (if length ls < length ws then Fin r' else Fin 1) = Fin 0"
    "fl_mul (Fin 0) (if length ws < length ls then Fin r else Fin 1) = Fin 0"
    by simp_all
  show "payTeam_d st (Fin 0) ws ls (replicate n (Fin 0)) = replicate n (Fin 0)"
    unfolding payTeam_d_def Let_def r r' g by simp
  show "payTeam_p0_d (Fin 0) ws ls (replicate n (Fin 0)) = replicate n (Fin 0)"
    unfolding payTeam_p0_d_def Let_def r r' g by simp
qed

lemma length_teamOf_le: "length (teamOf t aidx hole) \<le> length aidx"
  unfolding teamOf_def by (metis diff_zero length_filter_le length_upt)

lemma holeStep_d_zero:
  assumes w: "wagerD st = Fin 0" and c: "c < 2 ^ 32" and n: "length aidx < 2 ^ 32"
  shows "fst (holeStep_d st aidx hole c) = replicate (length aidx) (Fin 0)"
    and "fst (holeStep_p0_d st aidx hole c) = replicate (length aidx) (Fin 0)"
proof -
  note s = stake_zero [OF w c]
  have l: "length (teamOf t aidx hole) < 2 ^ 32" for t
    using length_teamOf_le [of t aidx hole] n by linarith
  have t: "length (if b then teamOf T1 aidx hole else teamOf T2 aidx hole) < 2 ^ 32"
    "length (if b then teamOf T2 aidx hole else teamOf T1 aidx hole) < 2 ^ 32" for b
    using l by simp_all
  have team: "teamOf T1 aidx hole \<noteq> [] \<Longrightarrow> teamOf T2 aidx hole \<noteq> [] \<Longrightarrow>
      fst (teamHole_d st aidx hole c (teamOf T1 aidx hole) (teamOf T2 aidx hole))
        = replicate (length aidx) (Fin 0)"
    using payTeam_d_zero(1) [OF t(1) t(2)] payTeam_d_zero(1) [OF t(2) t(1)]
    by (auto simp: teamHole_d_def Let_def s)
  have team0: "teamOf T1 aidx hole \<noteq> [] \<Longrightarrow> teamOf T2 aidx hole \<noteq> [] \<Longrightarrow>
      fst (teamHole_p0_d st aidx hole c (teamOf T1 aidx hole) (teamOf T2 aidx hole))
        = replicate (length aidx) (Fin 0)"
    using payTeam_d_zero(2) [OF t(1) t(2)] payTeam_d_zero(2) [OF t(2) t(1)]
    by (auto simp: teamHole_p0_d_def Let_def s)
  have solo: "fst (soloHole_d st aidx hole c ps) = replicate (length aidx) (Fin 0)" for ps
    by (simp add: soloHole_d_def Let_def s)
  have solo0: "fst (soloHole_p0_d st aidx hole c ps) = replicate (length aidx) (Fin 0)" for ps
    by (simp add: soloHole_p0_d_def Let_def s)
  show "fst (holeStep_d st aidx hole c) = replicate (length aidx) (Fin 0)"
    using team by (simp add: holeStep_d_def Let_def solo)
  show "fst (holeStep_p0_d st aidx hole c) = replicate (length aidx) (Fin 0)"
    using team0 by (simp add: holeStep_p0_d_def Let_def solo0)
qed

lemma holesLoop_d_zero:
  assumes w: "wagerD st = Fin 0" and n: "length aidx < 2 ^ 32"
  shows "c + length holes < 2 ^ 32 \<Longrightarrow>
    fst (holesLoop_d st aidx holes c) = map (\<lambda>h. replicate (length aidx) (Fin 0)) holes"
proof (induction holes arbitrary: c)
  case Nil
  then show ?case by simp
next
  case (Cons h hs)
  have c: "c < 2 ^ 32" using Cons.prems by simp
  have "snd (holeStep_d st aidx h c) + length hs < 2 ^ 32"
    using holeStep_d_carry_le [of st aidx h c] Cons.prems by simp
  from Cons.IH [OF this] show ?case
    unfolding holesLoop_d_Cons by (simp add: holeStep_d_zero(1) [OF w c n])
qed

lemma holesLoop_p0_d_zero:
  assumes w: "wagerD st = Fin 0" and n: "length aidx < 2 ^ 32"
  shows "c + length holes < 2 ^ 32 \<Longrightarrow>
    fst (holesLoop_p0_d st aidx holes c) = map (\<lambda>h. replicate (length aidx) (Fin 0)) holes"
proof (induction holes arbitrary: c)
  case Nil
  then show ?case by simp
next
  case (Cons h hs)
  have c: "c < 2 ^ 32" using Cons.prems by simp
  have "snd (holeStep_p0_d st aidx h c) + length hs < 2 ^ 32"
    using holeStep_p0_d_carry_le [of st aidx h c] Cons.prems by simp
  from Cons.IH [OF this] show ?case
    unfolding holesLoop_p0_d_Cons by (simp add: holeStep_d_zero(2) [OF w c n])
qed

lemma addRow_d_zero [simp]:
  "addRow_d (replicate n (Fin 0)) (replicate n (Fin 0)) = replicate n (Fin 0)"
proof -
  have "fold (\<lambda>i. addTo i (replicate n (Fin 0) ! i)) xs (replicate n (Fin 0)) = replicate n (Fin 0)"
    if "\<forall>i \<in> set xs. i < n" for xs
    using that by (induction xs) simp_all
  from this [of "[0..<n]"] show ?thesis by (simp add: addRow_d_def)
qed

lemma sumRows_d_zero [simp]:
  "sumRows_d n (map (\<lambda>h. replicate n (Fin 0)) holes) = replicate n (Fin 0)"
  unfolding sumRows_d_def by (induction holes) simp_all

lemma length_activeIndices_le:
  "length (activeIndices ps) \<le> length ps" "length (activeIndices_p0 ps) \<le> length ps"
  unfolding activeIndices_def activeIndices_p0_def
  by (metis diff_zero length_filter_le length_upt)+

text \<open>
  C10, as the code has it, in double precision. The carry after any list of holes is
  the same for every two wagers, finite or not, and the exit that an iteration takes
  reads no setting at all; an iteration that is not settled gives a row of zeros for
  every wager; with wager 0 every row of the matrix and the totals are zero (the
  arrays of holes and of players have fewer than \<open>2 ^ 32\<close> elements); in both
  versions. The stake of a settled round is the double
  \<open>(wager * units) * multiplier\<close>, so that payouts follow the wager up to rounding
  only.
\<close>

theorem C10_wager_double:
  "snd (holesLoop_d (st\<lparr>wagerD := w\<rparr>) aidx holes c) = snd (holesLoop_d (st\<lparr>wagerD := w'\<rparr>) aidx holes c)
   \<and> snd (holesLoop_p0_d (st\<lparr>wagerD := w\<rparr>) aidx holes c) = snd (holesLoop_p0_d (st\<lparr>wagerD := w'\<rparr>) aidx holes c)
   \<and> snd (holeStep_d st aidx hole c) =
        (case outcome aidx hole of
           Settled \<Rightarrow> 0 | Tie \<Rightarrow> (if carryOverD st then c + 1 else c) | Void \<Rightarrow> c | Degenerate \<Rightarrow> c)
   \<and> snd (holeStep_p0_d st aidx hole c) =
        (case outcome_p0 aidx hole of
           Settled \<Rightarrow> 0 | Tie \<Rightarrow> (if carryOverD st then c + 1 else c) | Void \<Rightarrow> c | Degenerate \<Rightarrow> c)
   \<and> (outcome aidx hole \<noteq> Settled \<longrightarrow>
        fst (holeStep_d st aidx hole c) = replicate (length aidx) (Fin 0))
   \<and> (outcome_p0 aidx hole \<noteq> Settled \<longrightarrow>
        fst (holeStep_p0_d st aidx hole c) = replicate (length aidx) (Fin 0))
   \<and> (length holes < 2 ^ 32 \<longrightarrow> length playersAll < 2 ^ 32 \<longrightarrow>
        deltasD (computeDeltas_d holes (st\<lparr>wagerD := Fin 0\<rparr>) playersAll) =
          map (\<lambda>h. replicate (length (activeIndices playersAll)) (Fin 0)) holes
        \<and> totalsD (computeDeltas_d holes (st\<lparr>wagerD := Fin 0\<rparr>) playersAll) =
          replicate (length (activeIndices playersAll)) (Fin 0)
        \<and> fst (computeDeltas_p0_d holes (st\<lparr>wagerD := Fin 0\<rparr>) playersAll) =
          map (\<lambda>h. replicate (length (activeIndices_p0 playersAll)) (Fin 0)) holes
        \<and> snd (computeDeltas_p0_d holes (st\<lparr>wagerD := Fin 0\<rparr>) playersAll) =
          replicate (length (activeIndices_p0 playersAll)) (Fin 0))"
proof -
  have z: "deltasD (computeDeltas_d holes (st\<lparr>wagerD := Fin 0\<rparr>) playersAll) =
          map (\<lambda>h. replicate (length (activeIndices playersAll)) (Fin 0)) holes
        \<and> totalsD (computeDeltas_d holes (st\<lparr>wagerD := Fin 0\<rparr>) playersAll) =
          replicate (length (activeIndices playersAll)) (Fin 0)
        \<and> fst (computeDeltas_p0_d holes (st\<lparr>wagerD := Fin 0\<rparr>) playersAll) =
          map (\<lambda>h. replicate (length (activeIndices_p0 playersAll)) (Fin 0)) holes
        \<and> snd (computeDeltas_p0_d holes (st\<lparr>wagerD := Fin 0\<rparr>) playersAll) =
          replicate (length (activeIndices_p0 playersAll)) (Fin 0)"
    if h: "length holes < 2 ^ 32" and p: "length playersAll < 2 ^ 32"
  proof -
    have w: "wagerD (st\<lparr>wagerD := Fin 0\<rparr>) = Fin 0" by simp
    have a: "length (activeIndices playersAll) < 2 ^ 32" "length (activeIndices_p0 playersAll) < 2 ^ 32"
      using length_activeIndices_le [of playersAll] p by linarith+
    have c: "0 + length holes < 2 ^ 32" using h by simp
    show ?thesis
      by (simp add: computeDeltas_d_def computeDeltas_p0_d_def Let_def
          holesLoop_d_zero [OF w a(1) c] holesLoop_p0_d_zero [OF w a(2) c])
  qed
  show ?thesis
    using z holesLoop_d_carry_wager [where st = st and w = w and w' = w' and aidx = aidx and holes = holes and c = c]
      holesLoop_p0_d_carry_wager [where st = st and w = w and w' = w' and aidx = aidx and holes = holes and c = c]
      holeStep_d_carry [where st = st and aidx = aidx and hole = hole and c = c]
      holeStep_p0_d_carry [where st = st and aidx = aidx and hole = hole and c = c]
      holeStep_d_unsettled [where st = st and aidx = aidx and hole = hole and c = c]
      holeStep_p0_d_unsettled [where st = st and aidx = aidx and hole = hole and c = c]
    by blast
qed

end
